theory Spec2Isabelle
  imports Main "HOL-Library.Sublist"
begin

section \<open>The event bus of src/main.js\<close>

subsection \<open>Values, handlers and errors\<close>

text \<open>
  Event names are strings. A handler is a function reference, compared by identity:
  \<open>Fn k\<close> is the \<open>k\<close>-th function of the host program, and
  \<open>OnceWrapper i event callback\<close> is the closure \<open>wrapper\<close> that the
  \<open>i\<close>-th call of \<open>once\<close> allocated; it closes over \<open>event\<close> and
  \<open>callback\<close>.
\<close>

type_synonym event = string

datatype handler = Fn nat | OnceWrapper nat event handler

datatype val =
    VUndefined
  | VNull
  | VBool bool
  | VNum int
  | VStr string
  | VArr "val list"
  | VFun handler

text \<open>
  Every \<open>throw new Error(msg)\<close> of the source is a value that carries \<open>msg\<close>. The
  constructor is the spec's name of the failure: \<open>InvalidArgument\<close> for the three
  argument checks, \<open>NotRegistered\<close> for the registry check. \<open>TypeError\<close> is what
  JavaScript raises for \<open>subscribers.add\<close> on \<open>undefined\<close>, and \<open>UserError\<close> is
  a value thrown by a handler.
\<close>

datatype exn =
    InvalidArgument string
  | NotRegistered string
  | TypeError string
  | UserError val

datatype 'a result = Returned 'a | Thrown exn

definition not_registered_message :: "event \<Rightarrow> string" where
  \<open>not_registered_message event = ''Event "'' @ event @ ''" is not registered. Call setup() first.''\<close>

subsection \<open>The state of the bus\<close>

text \<open>
  \<open>this.events\<close> is a \<open>Map<string, Set<Function>>\<close> and \<open>this.registeredEvents\<close> a
  \<open>Set<string>\<close>. A JavaScript \<open>Set\<close> iterates in insertion order, and
  \<open>Array.from\<close> reads it in that order, so a subscriber set is the list of its members
  in insertion order.
\<close>

record bus =
  events :: "event \<rightharpoonup> handler list"
  registeredEvents :: "event set"

definition new_bus :: bus where
  "new_bus = \<lparr>events = Map.empty, registeredEvents = {}\<rparr>"

definition set_add :: "'a \<Rightarrow> 'a list \<Rightarrow> 'a list" where
  "set_add x xs = (if x \<in> set xs then xs else xs @ [x])"

definition set_delete :: "'a \<Rightarrow> 'a list \<Rightarrow> 'a list" where
  "set_delete x xs = removeAll x xs"

subsection \<open>setup, subscribe, once, unsubscribe, clear, reset\<close>

text \<open>\<open>setup\<close> is \<open>setup_events\<close> here; its loop is \<open>setup_loop\<close>.\<close>

fun setup_loop :: "val list \<Rightarrow> bus \<Rightarrow> unit result \<times> bus" where
  "setup_loop [] b = (Returned (), b)"
| "setup_loop (eventName # rest) b =
     (case eventName of
        VStr name \<Rightarrow>
          setup_loop rest
            (b\<lparr>registeredEvents := insert name (registeredEvents b),
               events := (if events b name = None then (events b)(name \<mapsto> []) else events b)\<rparr>)
      | _ \<Rightarrow> (Thrown (InvalidArgument ''Event names must be strings''), b))"

definition setup_events :: "val \<Rightarrow> bus \<Rightarrow> unit result \<times> bus" where
  "setup_events eventNames b =
     (case eventNames of
        VArr names \<Rightarrow> setup_loop names b
      | _ \<Rightarrow> (Thrown (InvalidArgument ''setup() requires an array of event names''), b))"

text \<open>The function \<open>() => this.unsubscribe(event, callback)\<close> that subscribe returns.\<close>

datatype token = Token event handler

definition subscribe :: "event \<Rightarrow> val \<Rightarrow> bus \<Rightarrow> token result \<times> bus" where
  "subscribe event callback b =
     (if event \<notin> registeredEvents b
      then (Thrown (NotRegistered (not_registered_message event)), b)
      else case callback of
        VFun h \<Rightarrow>
          (case events b event of
             None \<Rightarrow> (Thrown (TypeError ''subscribers is undefined''), b)
           | Some subscribers \<Rightarrow>
               (Returned (Token event h), b\<lparr>events := (events b)(event \<mapsto> set_add h subscribers)\<rparr>))
      | _ \<Rightarrow> (Thrown (InvalidArgument ''Callback must be a function''), b))"

text \<open>
  \<open>once\<close> allocates the closure \<open>wrapper\<close>; \<open>wid\<close> is the identity of the new
  closure, supplied by the caller (the allocation counter of the machine below).
\<close>

definition once :: "event \<Rightarrow> val \<Rightarrow> nat \<Rightarrow> bus \<Rightarrow> token result \<times> bus" where
  "once event callback wid b =
     (if event \<notin> registeredEvents b
      then (Thrown (NotRegistered (not_registered_message event)), b)
      else case callback of
        VFun h \<Rightarrow> subscribe event (VFun (OnceWrapper wid event h)) b
      | _ \<Rightarrow> (Thrown (InvalidArgument ''Callback must be a function''), b))"

text \<open>
  \<open>subscribers.delete(callback)\<close> removes a member and does nothing for any other
  value; a value that is not a function is never a member.
\<close>

definition unsubscribe :: "event \<Rightarrow> val \<Rightarrow> bus \<Rightarrow> bus" where
  "unsubscribe event callback b =
     (case events b event of
        None \<Rightarrow> b
      | Some subscribers \<Rightarrow>
          (case callback of
             VFun h \<Rightarrow> b\<lparr>events := (events b)(event \<mapsto> set_delete h subscribers)\<rparr>
           | _ \<Rightarrow> b))"


definition clear :: "event \<Rightarrow> bus \<Rightarrow> bus" where
  "clear event b =
     (case events b event of
        None \<Rightarrow> b
      | Some subscribers \<Rightarrow> b\<lparr>events := (events b)(event \<mapsto> [])\<rparr>)"

definition reset :: "bus \<Rightarrow> bus" where
  "reset b = b\<lparr>events := Map.empty, registeredEvents := {}\<rparr>"

section \<open>Handlers, promises and the event loop\<close>

subsection \<open>Host programs\<close>

text \<open>
  What a function of the host program does to the bus: a sequence of calls of the
  bus's operations. \<open>AEmit\<close> calls \<open>emit\<close> and drops the promise;
  \<open>AwaitEmit\<close> awaits it; \<open>Await\<close> awaits a promise of the host (a timer, I/O);
  \<open>Try a\<close> is \<open>try { a } catch {}\<close>. A synchronous function has no \<open>await\<close>.
\<close>

datatype action =
    ASetup val
  | ASubscribe event val
  | AOnce event val
  | AUnsubscribe event val
  | AEmit event "val list"
  | AClear event
  | AReset
  | AThrow val

datatype sstmt = Do action | Try action

datatype astmt = Sync sstmt | Await | AwaitEmit event "val list"

datatype fdef = SyncFn "sstmt list" | AsyncFn "astmt list"

type_synonym env = "nat \<Rightarrow> fdef"

subsection \<open>Promises and suspended async functions\<close>

text \<open>
  Every call of an async function makes a promise. A task is that promise together with
  what the async function does when it is resumed: the body of a host function after an
  \<open>await\<close>, the arrow function of \<open>emit\<close> at \<open>await callback(...args)\<close>, the
  wrapper of \<open>once\<close> at \<open>await callback(...args)\<close>, or \<open>emit\<close> itself at
  \<open>await Promise.all(promises)\<close>. Tasks are numbered in the order of their creation.
\<close>

datatype pstate = Pending | Fulfilled | Rejected exn

datatype retval = NoPromise | Promise nat

datatype cont =
    CBody retval "astmt list"
  | CArrow event "retval result"
  | CWrapper "retval result"
  | CEmit "nat list"

datatype task = Task (task_cont: cont) (task_state: pstate)

text \<open>
  The trace of invocations: who called which handler with which arguments. \<open>ByEmit k\<close>
  is the arrow function of the \<open>k\<close>-th emission that found a subscriber set,
  \<open>ByWrapper i\<close> the \<open>i\<close>-th wrapper of \<open>once\<close>.
\<close>

datatype caller = ByEmit nat | ByWrapper nat

record cfg =
  bus :: bus
  tasks :: "task list"
  console :: "(event \<times> exn) list"
  invoked :: "(caller \<times> handler \<times> val list) list"
  emissions :: nat
  next_wrapper :: nat

definition init :: cfg where
  "init = \<lparr>bus = new_bus, tasks = [], console = [], invoked = [], emissions = 0, next_wrapper = 0\<rparr>"

type_synonym emitter = "event \<Rightarrow> val list \<Rightarrow> cfg \<Rightarrow> (nat \<times> cfg) option"

type_synonym invoker = "handler \<Rightarrow> val list \<Rightarrow> cfg \<Rightarrow> (retval result \<times> cfg) option"

definition void :: "'a result \<Rightarrow> unit result" where
  "void r = (case r of Returned x \<Rightarrow> Returned () | Thrown e \<Rightarrow> Thrown e)"

subsection \<open>Running host code\<close>

text \<open>
  One call of an operation of the bus, by host code. The result \<open>None\<close> is a
  synchronous computation that does not end within the nesting depth allowed to
  \<open>emit\<close> (see \<open>emit_fuel\<close>).
\<close>

fun do_action :: "emitter \<Rightarrow> action \<Rightarrow> cfg \<Rightarrow> (unit result \<times> cfg) option" where
  "do_action E (ASetup names) c =
     Some (fst (setup_events names (bus c)), c\<lparr>bus := snd (setup_events names (bus c))\<rparr>)"
| "do_action E (ASubscribe event callback) c =
     Some (void (fst (subscribe event callback (bus c))),
           c\<lparr>bus := snd (subscribe event callback (bus c))\<rparr>)"
| "do_action E (AOnce event callback) c =
     Some (void (fst (once event callback (next_wrapper c) (bus c))),
           c\<lparr>bus := snd (once event callback (next_wrapper c) (bus c)),
             next_wrapper := Suc (next_wrapper c)\<rparr>)"
| "do_action E (AUnsubscribe event callback) c =
     Some (Returned (), c\<lparr>bus := unsubscribe event callback (bus c)\<rparr>)"
| "do_action E (AEmit event args) c =
     (case E event args c of None \<Rightarrow> None | Some (t, c1) \<Rightarrow> Some (Returned (), c1))"
| "do_action E (AClear event) c = Some (Returned (), c\<lparr>bus := clear event (bus c)\<rparr>)"
| "do_action E AReset c = Some (Returned (), c\<lparr>bus := reset (bus c)\<rparr>)"
| "do_action E (AThrow v) c = Some (Thrown (UserError v), c)"

fun run_sync :: "emitter \<Rightarrow> sstmt list \<Rightarrow> cfg \<Rightarrow> (unit result \<times> cfg) option" where
  "run_sync E [] c = Some (Returned (), c)"
| "run_sync E (Do a # rest) c =
     (case do_action E a c of
        None \<Rightarrow> None
      | Some (Thrown e, c1) \<Rightarrow> Some (Thrown e, c1)
      | Some (Returned u, c1) \<Rightarrow> run_sync E rest c1)"
| "run_sync E (Try a # rest) c =
     (case do_action E a c of
        None \<Rightarrow> None
      | Some (r, c1) \<Rightarrow> run_sync E rest c1)"

text \<open>How a run of an async body ends: at its end, by a throw, or at an \<open>await\<close>.\<close>

datatype outcome = Completed | Failed exn | Suspend retval "astmt list"

fun run_async :: "emitter \<Rightarrow> astmt list \<Rightarrow> cfg \<Rightarrow> (outcome \<times> cfg) option" where
  "run_async E [] c = Some (Completed, c)"
| "run_async E (Sync (Do a) # rest) c =
     (case do_action E a c of
        None \<Rightarrow> None
      | Some (Thrown e, c1) \<Rightarrow> Some (Failed e, c1)
      | Some (Returned u, c1) \<Rightarrow> run_async E rest c1)"
| "run_async E (Sync (Try a) # rest) c =
     (case do_action E a c of
        None \<Rightarrow> None
      | Some (r, c1) \<Rightarrow> run_async E rest c1)"
| "run_async E (Await # rest) c = Some (Suspend NoPromise rest, c)"
| "run_async E (AwaitEmit event args # rest) c =
     (case E event args c of
        None \<Rightarrow> None
      | Some (t, c1) \<Rightarrow> Some (Suspend (Promise t) rest, c1))"

definition body_task :: "outcome \<Rightarrow> task" where
  "body_task out =
     (case out of
        Completed \<Rightarrow> Task (CBody NoPromise []) Fulfilled
      | Failed e \<Rightarrow> Task (CBody NoPromise []) (Rejected e)
      | Suspend w rest \<Rightarrow> Task (CBody w rest) Pending)"

text \<open>
  The wrapper's promise: rejected at once when \<open>callback(...args)\<close> throws, else
  pending at the wrapper's \<open>await\<close>.
\<close>

definition wrapper_task :: "retval result \<Rightarrow> task" where
  "wrapper_task r = Task (CWrapper r) (case r of Thrown e \<Rightarrow> Rejected e | Returned v \<Rightarrow> Pending)"

definition alloc :: "task \<Rightarrow> cfg \<Rightarrow> nat \<times> cfg" where
  "alloc t c = (length (tasks c), c\<lparr>tasks := tasks c @ [t]\<rparr>)"

text \<open>
  Calling a handler runs it up to its first \<open>await\<close>. A synchronous function returns
  or throws; an async function returns its promise. The wrapper of \<open>once\<close> is
  \<open>async (...args) => { this.unsubscribe(event, wrapper); await callback(...args); }\<close>.
\<close>

fun call_handler :: "emitter \<Rightarrow> env \<Rightarrow> handler \<Rightarrow> val list \<Rightarrow> cfg \<Rightarrow> (retval result \<times> cfg) option" where
  "call_handler E env (Fn f) args c =
     (case env f of
        SyncFn body \<Rightarrow>
          (case run_sync E body c of
             None \<Rightarrow> None
           | Some (Thrown e, c1) \<Rightarrow> Some (Thrown e, c1)
           | Some (Returned u, c1) \<Rightarrow> Some (Returned NoPromise, c1))
      | AsyncFn body \<Rightarrow>
          (case run_async E body c of
             None \<Rightarrow> None
           | Some (out, c1) \<Rightarrow>
               Some (Returned (Promise (fst (alloc (body_task out) c1))), snd (alloc (body_task out) c1))))"
| "call_handler E env (OnceWrapper i event callback) args c =
     (case call_handler E env callback args
             (c\<lparr>bus := unsubscribe event (VFun (OnceWrapper i event callback)) (bus c),
                invoked := invoked c @ [(ByWrapper i, callback, args)]\<rparr>) of
        None \<Rightarrow> None
      | Some (r, c1) \<Rightarrow>
          Some (Returned (Promise (fst (alloc (wrapper_task r) c1))), snd (alloc (wrapper_task r) c1)))"

subsection \<open>emit\<close>

text \<open>
  The arrow function \<open>async (callback) => { try { await callback(...args); } catch (error)
  { console.error(..., error); } }\<close> of the \<open>k\<close>-th emission, called by \<open>map\<close>. A
  synchronous throw of the callback is caught and reported at once; otherwise the arrow
  function is suspended at its \<open>await\<close>.
\<close>

definition arrow :: "invoker \<Rightarrow> nat \<Rightarrow> event \<Rightarrow> val list \<Rightarrow> handler \<Rightarrow> cfg \<Rightarrow> (nat \<times> cfg) option" where
  "arrow call k event args callback c =
     (case call callback args (c\<lparr>invoked := invoked c @ [(ByEmit k, callback, args)]\<rparr>) of
        None \<Rightarrow> None
      | Some (Thrown e, c1) \<Rightarrow>
          Some (alloc (Task (CArrow event (Thrown e)) Fulfilled) (c1\<lparr>console := console c1 @ [(event, e)]\<rparr>))
      | Some (Returned v, c1) \<Rightarrow>
          Some (alloc (Task (CArrow event (Returned v)) Pending) c1))"

text \<open>\<open>Array.from(subscribers).map(arrow)\<close>: the promises of the arrow functions, in order.\<close>

fun dispatch :: "invoker \<Rightarrow> nat \<Rightarrow> event \<Rightarrow> val list \<Rightarrow> handler list \<Rightarrow> cfg \<Rightarrow> (nat list \<times> cfg) option" where
  "dispatch call k event args [] c = Some ([], c)"
| "dispatch call k event args (callback # rest) c =
     (case arrow call k event args callback c of
        None \<Rightarrow> None
      | Some (t, c1) \<Rightarrow>
          (case dispatch call k event args rest c1 of
             None \<Rightarrow> None
           | Some (ts, c2) \<Rightarrow> Some (t # ts, c2)))"

text \<open>
  The synchronous part of \<open>emit\<close>, up to \<open>await Promise.all(promises)\<close>; the result is
  the promise that \<open>emit\<close> returns.
\<close>

definition emit :: "invoker \<Rightarrow> event \<Rightarrow> val list \<Rightarrow> cfg \<Rightarrow> (nat \<times> cfg) option" where
  "emit call event args c =
     (case events (bus c) event of
        None \<Rightarrow> Some (alloc (Task (CEmit []) Fulfilled) c)
      | Some subscribers \<Rightarrow>
          (case dispatch call (emissions c) event args subscribers (c\<lparr>emissions := Suc (emissions c)\<rparr>) of
             None \<Rightarrow> None
           | Some (promises, c1) \<Rightarrow> Some (alloc (Task (CEmit promises) Pending) c1)))"

text \<open>
  A handler may call \<open>emit\<close> again, which calls handlers again: \<open>emit_fuel n\<close> is
  \<open>emit\<close> with at most \<open>n\<close> emissions nested in one another.
\<close>

primrec emit_fuel :: "nat \<Rightarrow> env \<Rightarrow> emitter" where
  "emit_fuel 0 env = (\<lambda>event args c. None)"
| "emit_fuel (Suc n) env = emit (call_handler (emit_fuel n env) env)"

subsection \<open>The event loop\<close>

text \<open>What \<open>await\<close> of the result of a call yields.\<close>

definition settled :: "task list \<Rightarrow> retval result \<Rightarrow> pstate" where
  "settled ts r =
     (case r of
        Thrown e \<Rightarrow> Rejected e
      | Returned NoPromise \<Rightarrow> Fulfilled
      | Returned (Promise t) \<Rightarrow> (if t < length ts then task_state (ts ! t) else Pending))"

text \<open>\<open>Promise.all\<close>: rejected as soon as one promise is, fulfilled when all are.\<close>

fun promise_all :: "task list \<Rightarrow> nat list \<Rightarrow> pstate" where
  "promise_all ts [] = Fulfilled"
| "promise_all ts (p # ps) =
     (case settled ts (Returned (Promise p)) of
        Rejected e \<Rightarrow> Rejected e
      | Pending \<Rightarrow> (case promise_all ts ps of Rejected e \<Rightarrow> Rejected e | _ \<Rightarrow> Pending)
      | Fulfilled \<Rightarrow> promise_all ts ps)"

definition set_state :: "nat \<Rightarrow> pstate \<Rightarrow> cfg \<Rightarrow> cfg" where
  "set_state t st c = c\<lparr>tasks := (tasks c)[t := Task (task_cont (tasks c ! t)) st]\<rparr>"

text \<open>
  One turn of the event loop: task \<open>t\<close> is resumed if what it awaits is settled, and
  runs up to its next \<open>await\<close>. Any pending task may be taken: the order in which the
  promises of the host settle is not fixed.
\<close>

definition resume :: "emitter \<Rightarrow> nat \<Rightarrow> cfg \<Rightarrow> cfg option" where
  "resume E t c =
     (if t < length (tasks c) \<and> task_state (tasks c ! t) = Pending then
        (case task_cont (tasks c ! t) of
           CArrow event r \<Rightarrow>
             (case settled (tasks c) r of
                Pending \<Rightarrow> Some c
              | Fulfilled \<Rightarrow> Some (set_state t Fulfilled c)
              | Rejected e \<Rightarrow> Some (set_state t Fulfilled (c\<lparr>console := console c @ [(event, e)]\<rparr>)))
         | CWrapper r \<Rightarrow>
             (case settled (tasks c) r of
                Pending \<Rightarrow> Some c
              | Fulfilled \<Rightarrow> Some (set_state t Fulfilled c)
              | Rejected e \<Rightarrow> Some (set_state t (Rejected e) c))
         | CEmit promises \<Rightarrow>
             (case promise_all (tasks c) promises of
                Pending \<Rightarrow> Some c
              | Fulfilled \<Rightarrow> Some (set_state t Fulfilled c)
              | Rejected e \<Rightarrow> Some (set_state t (Rejected e) c))
         | CBody w rest \<Rightarrow>
             (case settled (tasks c) (Returned w) of
                Pending \<Rightarrow> Some c
              | Rejected e \<Rightarrow> Some (set_state t (Rejected e) c)
              | Fulfilled \<Rightarrow>
                  (case run_async E rest c of
                     None \<Rightarrow> None
                   | Some (out, c1) \<Rightarrow> Some (c1\<lparr>tasks := (tasks c1)[t := body_task out]\<rparr>))))
      else Some c)"

text \<open>
  The top level of the host program: calls of the bus's operations (an error is caught
  by the caller) and turns of the event loop, in any order.
\<close>

datatype step = Call action | Tick nat

fun run :: "emitter \<Rightarrow> step list \<Rightarrow> cfg \<Rightarrow> cfg option" where
  "run E [] c = Some c"
| "run E (Call a # rest) c =
     (case do_action E a c of None \<Rightarrow> None | Some (r, c1) \<Rightarrow> run E rest c1)"
| "run E (Tick t # rest) c =
     (case resume E t c of None \<Rightarrow> None | Some c1 \<Rightarrow> run E rest c1)"

section \<open>Invariants\<close>

definition is_string :: "val \<Rightarrow> bool" where
  "is_string v = (case v of VStr s \<Rightarrow> True | _ \<Rightarrow> False)"

text \<open>
  The two structures of the bus agree, and a subscriber set has no member twice (it is
  a \<open>Set\<close>).
\<close>

definition bus_ok :: "bus \<Rightarrow> bool" where
  "bus_ok b =
     (dom (events b) = registeredEvents b
      \<and> (\<forall>e subscribers. events b e = Some subscribers \<longrightarrow> distinct subscribers))"

text \<open>The invocations that the arrow functions of the \<open>k\<close>-th emission made.\<close>

definition by_emit :: "nat \<Rightarrow> (caller \<times> handler \<times> val list) list \<Rightarrow> (caller \<times> handler \<times> val list) list" where
  "by_emit k xs = filter (\<lambda>x. fst x = ByEmit k) xs"

definition tags_ok :: "nat \<Rightarrow> (caller \<times> handler \<times> val list) list \<Rightarrow> bool" where
  "tags_ok n xs = (\<forall>x \<in> set xs. \<forall>j. fst x = ByEmit j \<longrightarrow> j < n)"

definition is_arrow :: "task \<Rightarrow> bool" where
  "is_arrow t = (case task_cont t of CArrow event r \<Rightarrow> True | _ \<Rightarrow> False)"

text \<open>
  What holds of every promise: the promise of an arrow function of \<open>emit\<close> is never
  rejected, and it is fulfilled only when the call of its handler has finished, a
  failure of that call being on the console under the event's name; the promise of
  \<open>emit\<close> is never rejected, and it is fulfilled only when the promises of all its
  arrow functions are; the promise of a wrapper of \<open>once\<close> is settled only when the
  call of its callback has finished.
\<close>

definition task_ok :: "task list \<Rightarrow> (event \<times> exn) list \<Rightarrow> task \<Rightarrow> bool" where
  "task_ok ts con t =
     (case task_cont t of
        CArrow event r \<Rightarrow>
          (\<forall>e. task_state t \<noteq> Rejected e)
          \<and> (task_state t = Fulfilled \<longrightarrow>
               settled ts r \<noteq> Pending \<and> (\<forall>e. settled ts r = Rejected e \<longrightarrow> (event, e) \<in> set con))
      | CEmit promises \<Rightarrow>
          (\<forall>e. task_state t \<noteq> Rejected e)
          \<and> (\<forall>p \<in> set promises. p < length ts \<and> is_arrow (ts ! p))
          \<and> (task_state t = Fulfilled \<longrightarrow> (\<forall>p \<in> set promises. task_state (ts ! p) = Fulfilled))
      | CWrapper r \<Rightarrow> (task_state t \<noteq> Pending \<longrightarrow> settled ts r \<noteq> Pending)
      | CBody w rest \<Rightarrow> True)"

definition inv :: "cfg \<Rightarrow> bool" where
  "inv c =
     (bus_ok (bus c)
      \<and> tags_ok (emissions c) (invoked c)
      \<and> (\<forall>t \<in> set (tasks c). task_ok (tasks c) (console c) t))"

text \<open>
  What a step leaves as it is. \<open>tmono\<close>: a settled promise stays as it is, and the
  arrow functions, wrappers and emissions keep what they await. \<open>sgood K\<close> relates the
  configurations before and after a synchronous computation: no promise is touched, and
  the record of an emission that began before stands (the emissions of \<open>K\<close> apart:
  those that are dispatching). \<open>tgood\<close> is the same for turns of the event loop.
\<close>

definition is_body :: "task \<Rightarrow> bool" where
  "is_body t = (case task_cont t of CBody w rest \<Rightarrow> True | _ \<Rightarrow> False)"

definition tmono :: "task list \<Rightarrow> task list \<Rightarrow> bool" where
  "tmono ts ts' =
     (length ts \<le> length ts'
      \<and> (\<forall>t < length ts.
            (task_state (ts ! t) \<noteq> Pending \<longrightarrow> ts' ! t = ts ! t)
            \<and> (\<not> is_body (ts ! t) \<longrightarrow> task_cont (ts' ! t) = task_cont (ts ! t))))"

definition sgood :: "nat set \<Rightarrow> cfg \<Rightarrow> cfg \<Rightarrow> bool" where
  "sgood K c c' =
     (emissions c \<le> emissions c'
      \<and> next_wrapper c \<le> next_wrapper c'
      \<and> (\<forall>k < emissions c. k \<notin> K \<longrightarrow> by_emit k (invoked c') = by_emit k (invoked c))
      \<and> prefix (tasks c) (tasks c')
      \<and> prefix (console c) (console c')
      \<and> (inv c \<longrightarrow> inv c'))"

definition tgood :: "cfg \<Rightarrow> cfg \<Rightarrow> bool" where
  "tgood c c' =
     (emissions c \<le> emissions c'
      \<and> next_wrapper c \<le> next_wrapper c'
      \<and> (\<forall>k < emissions c. by_emit k (invoked c') = by_emit k (invoked c))
      \<and> tmono (tasks c) (tasks c')
      \<and> set (console c) \<subseteq> set (console c')
      \<and> (inv c \<longrightarrow> inv c'))"

definition emitter_good :: "emitter \<Rightarrow> bool" where
  "emitter_good E = (\<forall>event args c t c'. E event args c = Some (t, c') \<longrightarrow> sgood {} c c')"

definition invoker_good :: "invoker \<Rightarrow> bool" where
  "invoker_good call = (\<forall>h args c r c'. call h args c = Some (r, c') \<longrightarrow> sgood {} c c')"

definition arrow_of :: "event \<Rightarrow> task \<Rightarrow> bool" where
  "arrow_of event t = (case task_cont t of CArrow ev r \<Rightarrow> ev = event | _ \<Rightarrow> False)"

section \<open>A host program to run\<close>



text \<open>
  A second program, which calls every operation: function 0 subscribes function 1 and
  throws; function 1 is async and, after an \<open>await\<close>, calls \<open>setup\<close> with a bad
  array and then \<open>reset\<close>.
\<close>

definition ops_env :: env where
  "ops_env f =
     (if f = 0 then SyncFn [Do (ASubscribe ''b'' (VFun (Fn 1))), Do (AThrow VNull)]
      else if f = 1 then AsyncFn [Await, Sync (Try (ASetup (VArr [VStr ''c'', VNum 3]))), Sync (Do AReset)]
      else SyncFn [])"

definition ops_steps :: "step list" where
  "ops_steps =
     [Call (ASetup (VArr [VStr ''a'', VStr ''b''])),
      Call (ASubscribe ''a'' (VFun (Fn 0))),
      Call (AOnce ''a'' (VFun (Fn 1))),
      Call (ASubscribe ''zz'' (VFun (Fn 1))),
      Call (AEmit ''a'' [VNum 1]),
      Call (AUnsubscribe ''a'' (VFun (Fn 0))),
      Call (AClear ''b''),
      Call (ASetup (VArr [VStr ''d'', VNull])),
      Tick 1,
      Call (ASetup (VArr [VStr ''a'']))]"



text \<open>
  A one-time handler next to a handler that emits again: function 1 unsubscribes itself
  and emits \<open>e\<close>; function 0 is subscribed with \<open>once\<close> after it. The program awaits
  the first \<open>emit\<close> (every promise is settled by the turns 0 to 6) and emits again.
\<close>

definition once_env :: env where
  "once_env f =
     (if f = 1 then SyncFn [Do (AUnsubscribe ''e'' (VFun (Fn 1))), Do (AEmit ''e'' [])]
      else SyncFn [])"

definition once_first :: "step list" where
  "once_first =
     [Call (ASetup (VArr [VStr ''e''])),
      Call (ASubscribe ''e'' (VFun (Fn 1))),
      Call (AOnce ''e'' (VFun (Fn 0))),
      Call (AEmit ''e'' []),
      Tick 0, Tick 1, Tick 2, Tick 3, Tick 4, Tick 5, Tick 6]"

definition once_second :: "step list" where
  "once_second = [Call (AEmit ''e'' []), Tick 7]"

section \<open>Programs whose handlers do not emit\<close>

text \<open>
  \<open>emit_free env\<close>: no function of the host program calls \<open>emit\<close>. \<open>extends E E'\<close>:
  the emitter \<open>E'\<close> returns what \<open>E\<close> returns, wherever \<open>E\<close> returns.
\<close>

fun no_emit :: "action \<Rightarrow> bool" where
  "no_emit (AEmit event args) = False"
| "no_emit a = True"

fun no_emit_sync :: "sstmt \<Rightarrow> bool" where
  "no_emit_sync (Do a) = no_emit a"
| "no_emit_sync (Try a) = no_emit a"

fun no_emit_async :: "astmt \<Rightarrow> bool" where
  "no_emit_async (Sync s) = no_emit_sync s"
| "no_emit_async Await = True"
| "no_emit_async (AwaitEmit event args) = False"

definition emit_free :: "env \<Rightarrow> bool" where
  "emit_free env =
     (\<forall>f. case env f of
            SyncFn body \<Rightarrow> list_all no_emit_sync body
          | AsyncFn body \<Rightarrow> list_all no_emit_async body)"

definition extends :: "emitter \<Rightarrow> emitter \<Rightarrow> bool" where
  "extends E E' = (\<forall>event args c r. E event args c = Some r \<longrightarrow> E' event args c = Some r)"

section \<open>Programs that hold no wrapper of once\<close>

text \<open>
  The wrapper that \<open>once\<close> allocates is known to the bus only; the host holds the
  unsubscribe function. A program is \<open>plain\<close> when it passes no wrapper to
  \<open>subscribe\<close> or \<open>once\<close>. \<open>wids h\<close> are the wrappers that the handler \<open>h\<close> is made
  of. \<open>spent I c\<close>: the wrappers of \<open>I\<close> are allocated and are part of no subscriber, no
  wrapper that is not allocated yet is subscribed or was invoked, and what the suspended
  host functions have left to run is plain. \<open>wgood I\<close> relates two configurations when
  the second keeps \<open>spent I\<close> and has no further invocation by a wrapper of \<open>I\<close>.
\<close>

fun wids :: "handler \<Rightarrow> nat set" where
  "wids (Fn f) = {}"
| "wids (OnceWrapper j event callback) = insert j (wids callback)"

definition plain :: "val \<Rightarrow> bool" where
  "plain v = (case v of VFun (OnceWrapper j event callback) \<Rightarrow> False | _ \<Rightarrow> True)"

fun plain_action :: "action \<Rightarrow> bool" where
  "plain_action (ASubscribe event callback) = plain callback"
| "plain_action (AOnce event callback) = plain callback"
| "plain_action a = True"

fun plain_sync :: "sstmt \<Rightarrow> bool" where
  "plain_sync (Do a) = plain_action a"
| "plain_sync (Try a) = plain_action a"

fun plain_async :: "astmt \<Rightarrow> bool" where
  "plain_async (Sync s) = plain_sync s"
| "plain_async a = True"

fun plain_step :: "step \<Rightarrow> bool" where
  "plain_step (Call a) = plain_action a"
| "plain_step (Tick t) = True"

definition plain_env :: "env \<Rightarrow> bool" where
  "plain_env env =
     (\<forall>f. case env f of
            SyncFn body \<Rightarrow> list_all plain_sync body
          | AsyncFn body \<Rightarrow> list_all plain_async body)"

definition by_wrapper :: "nat \<Rightarrow> (caller \<times> handler \<times> val list) list \<Rightarrow> (caller \<times> handler \<times> val list) list" where
  "by_wrapper i xs = filter (\<lambda>x. fst x = ByWrapper i) xs"

definition handler_ok :: "nat set \<Rightarrow> nat \<Rightarrow> handler \<Rightarrow> bool" where
  "handler_ok I n h = (\<forall>j \<in> wids h. j < n \<and> j \<notin> I)"

definition subs_ok :: "nat set \<Rightarrow> nat \<Rightarrow> bus \<Rightarrow> bool" where
  "subs_ok I n b = (\<forall>e subscribers. events b e = Some subscribers \<longrightarrow> (\<forall>h \<in> set subscribers. handler_ok I n h))"

definition wlog_ok :: "nat \<Rightarrow> (caller \<times> handler \<times> val list) list \<Rightarrow> bool" where
  "wlog_ok n xs = (\<forall>x \<in> set xs. \<forall>j. fst x = ByWrapper j \<longrightarrow> j < n)"

definition conts_plain :: "task list \<Rightarrow> bool" where
  "conts_plain ts = (\<forall>t \<in> set ts. \<forall>w rest. task_cont t = CBody w rest \<longrightarrow> list_all plain_async rest)"

definition spent :: "nat set \<Rightarrow> cfg \<Rightarrow> bool" where
  "spent I c =
     (subs_ok I (next_wrapper c) (bus c)
      \<and> (\<forall>i \<in> I. i < next_wrapper c)
      \<and> wlog_ok (next_wrapper c) (invoked c)
      \<and> conts_plain (tasks c))"

definition wgood :: "nat set \<Rightarrow> cfg \<Rightarrow> cfg \<Rightarrow> bool" where
  "wgood I c c' =
     (spent I c \<longrightarrow>
        spent I c' \<and> (\<forall>i \<in> I. by_wrapper i (invoked c') = by_wrapper i (invoked c)))"

definition emitter_wgood :: "nat set \<Rightarrow> emitter \<Rightarrow> bool" where
  "emitter_wgood I E = (\<forall>event args c t c'. E event args c = Some (t, c') \<longrightarrow> wgood I c c')"

definition invoker_wgood :: "nat set \<Rightarrow> invoker \<Rightarrow> bool" where
  "invoker_wgood I call =
     (\<forall>h args c r c'. handler_ok I (next_wrapper c) h \<longrightarrow> call h args c = Some (r, c') \<longrightarrow> wgood I c c')"

text \<open>
  A one-time handler alone on its event: function 0 calls \<open>emit('e')\<close> from within
  itself and then throws.
\<close>

definition solo_env :: env where
  "solo_env f = (if f = 0 then SyncFn [Do (AEmit ''e'' []), Do (AThrow (VStr ''x''))] else SyncFn [])"

definition solo_later :: "step list" where
  "solo_later = [Tick 0, Tick 1, Tick 2, Tick 3, Call (AEmit ''e'' []), Tick 4]"

section \<open>The operations on the bus\<close>

subsection \<open>setup\<close>

lemma setup_loop_strings:
  "\<forall>v \<in> set xs. is_string v \<Longrightarrow> fst (setup_loop xs b) = Returned ()"
  by (induction xs arbitrary: b) (auto simp: is_string_def split: val.splits)

lemma setup_loop_registered:
  "\<forall>v \<in> set xs. is_string v \<Longrightarrow>
     registeredEvents (snd (setup_loop xs b)) = registeredEvents b \<union> {s. VStr s \<in> set xs}"
  by (induction xs arbitrary: b) (auto simp: is_string_def split: val.splits)

lemma setup_loop_events:
  "\<forall>v \<in> set xs. is_string v \<Longrightarrow>
     events (snd (setup_loop xs b)) e =
       (if events b e = None \<and> VStr e \<in> set xs then Some [] else events b e)"
  by (induction xs arbitrary: b) (auto simp: is_string_def split: val.splits)

lemma setup_loop_first_bad:
  assumes "\<exists>v \<in> set names. \<not> is_string v"
  shows "setup_loop names b =
     (Thrown (InvalidArgument ''Event names must be strings''), snd (setup_loop (takeWhile is_string names) b))"
  using assms by (induction names arbitrary: b) (auto simp: is_string_def split: val.splits)



text \<open>
  Claim C3, as the code has it. The loop of \<open>setup\<close> checks an element right before it
  registers it, so the throw comes after the elements before the first non-string one
  are registered: \<open>setup(names)\<close> throws \<open>Event names must be strings\<close>, and the state
  after the throw is the state after \<open>setup\<close> of the longest prefix of \<open>names\<close> that
  holds strings only, which succeeds. Those names are in \<open>registeredEvents\<close>, each with an
  empty subscriber set where it had none; nothing else is changed, and neither the
  offending element nor any element after it is registered.
\<close>

theorem setup_throws_after_prefix:
  assumes "\<exists>v \<in> set names. \<not> is_string v"
  shows "setup_events (VArr names) b =
           (Thrown (InvalidArgument ''Event names must be strings''),
            snd (setup_events (VArr (takeWhile is_string names)) b))
       \<and> fst (setup_events (VArr (takeWhile is_string names)) b) = Returned ()
       \<and> registeredEvents (snd (setup_events (VArr names) b)) =
           registeredEvents b \<union> {s. VStr s \<in> set (takeWhile is_string names)}
       \<and> (\<forall>e. events (snd (setup_events (VArr names) b)) e =
             (if events b e = None \<and> VStr e \<in> set (takeWhile is_string names) then Some [] else events b e))"
proof -
  let ?pre = "takeWhile is_string names"
  have pre: "\<forall>v \<in> set ?pre. is_string v"
    by (auto dest: set_takeWhileD)
  have 1: "setup_events (VArr names) b =
           (Thrown (InvalidArgument ''Event names must be strings''), snd (setup_events (VArr ?pre) b))"
    using setup_loop_first_bad[OF assms] by (simp add: setup_events_def)
  have 2: "fst (setup_events (VArr ?pre) b) = Returned ()"
    using setup_loop_strings[OF pre] by (simp add: setup_events_def)
  have s: "snd (setup_events (VArr names) b) = snd (setup_loop ?pre b)"
    by (simp add: 1) (simp add: setup_events_def)
  have 3: "registeredEvents (snd (setup_events (VArr names) b)) =
           registeredEvents b \<union> {s. VStr s \<in> set ?pre}"
    unfolding s by (rule setup_loop_registered[OF pre])
  have 4: "\<forall>e. events (snd (setup_events (VArr names) b)) e =
             (if events b e = None \<and> VStr e \<in> set ?pre then Some [] else events b e)"
    unfolding s using setup_loop_events[OF pre] by blast
  from 1 2 3 4 show ?thesis by blast
qed

theorem setup_throws_after_prefix_witness:
  "setup_events (VArr [VStr ''a'', VNum 1, VStr ''b'']) new_bus =
     (Thrown (InvalidArgument ''Event names must be strings''), snd (setup_events (VArr [VStr ''a'']) new_bus))
   \<and> registeredEvents (snd (setup_events (VArr [VStr ''a'', VNum 1, VStr ''b'']) new_bus)) = {''a''}"
  using setup_throws_after_prefix[of "[VStr ''a'', VNum 1, VStr ''b'']" new_bus]
  by (simp add: is_string_def new_bus_def setup_events_def)

text \<open>
  Claim C3 as the spec states it (no state mutation before the throw) fails:
  \<open>setup(['a', 1])\<close> on the empty bus throws, and \<open>'a'\<close> is registered afterwards.
\<close>

theorem setup_not_atomic:
  "fst (setup_events (VArr [VStr ''a'', VNum 1]) new_bus) = Thrown (InvalidArgument ''Event names must be strings'')
   \<and> ''a'' \<in> registeredEvents (snd (setup_events (VArr [VStr ''a'', VNum 1]) new_bus))
   \<and> ''a'' \<notin> registeredEvents new_bus
   \<and> snd (setup_events (VArr [VStr ''a'', VNum 1]) new_bus) \<noteq> new_bus"
  by (auto simp add: setup_events_def new_bus_def)

subsection \<open>subscribe\<close>

lemma not_registered_message_names_event:
  "sublist event (not_registered_message event)"
  unfolding not_registered_message_def
  by (metis sublist_appendI)

lemma not_registered_message_mentions_setup:
  "sublist ''Call setup() first'' (not_registered_message event)"
proof -
  have "not_registered_message event =
          (''Event '' @ [CHR 0x22] @ event @ [CHR 0x22] @ '' is not registered. '') @ ''Call setup() first'' @ ''.''"
    by (simp add: not_registered_message_def)
  then show ?thesis
    by (metis sublist_appendI)
qed

text \<open>
  Claim C5. \<open>subscribe(x, fn)\<close> with a function \<open>fn\<close> throws the error of the registry
  check exactly when \<open>x\<close> is not in \<open>registeredEvents\<close>, and then changes nothing; the
  message holds the name \<open>x\<close> and the words \<open>Call setup() first\<close>. After
  \<open>setup([x])\<close> the same call returns its unsubscribe function and \<open>fn\<close> is a
  subscriber of \<open>x\<close>.
\<close>

theorem subscribe_gated:
  "((\<exists>msg. fst (subscribe x (VFun fn) b) = Thrown (NotRegistered msg)) \<longleftrightarrow> x \<notin> registeredEvents b)
   \<and> (x \<notin> registeredEvents b \<longrightarrow>
        subscribe x (VFun fn) b = (Thrown (NotRegistered (not_registered_message x)), b))
   \<and> sublist x (not_registered_message x)
   \<and> sublist ''Call setup() first'' (not_registered_message x)
   \<and> fst (subscribe x (VFun fn) (snd (setup_events (VArr [VStr x]) b))) = Returned (Token x fn)
   \<and> (\<exists>subscribers.
         events (snd (subscribe x (VFun fn) (snd (setup_events (VArr [VStr x]) b)))) x = Some subscribers
         \<and> fn \<in> set subscribers)"
proof -
  have a: "(\<exists>msg. fst (subscribe x (VFun fn) b) = Thrown (NotRegistered msg)) \<longleftrightarrow> x \<notin> registeredEvents b"
    by (auto simp: subscribe_def split: option.splits)
  have b: "x \<notin> registeredEvents b \<longrightarrow>
        subscribe x (VFun fn) b = (Thrown (NotRegistered (not_registered_message x)), b)"
    by (simp add: subscribe_def)
  have c: "fst (subscribe x (VFun fn) (snd (setup_events (VArr [VStr x]) b))) = Returned (Token x fn)"
    by (auto simp: subscribe_def setup_events_def split: option.splits)
  have d: "\<exists>subscribers.
         events (snd (subscribe x (VFun fn) (snd (setup_events (VArr [VStr x]) b)))) x = Some subscribers
         \<and> fn \<in> set subscribers"
    by (auto simp: subscribe_def setup_events_def set_add_def split: option.splits)
  from a b c d not_registered_message_names_event not_registered_message_mentions_setup
  show ?thesis by blast
qed

theorem subscribe_gated_witness:
  "subscribe ''x'' (VFun (Fn 0)) new_bus = (Thrown (NotRegistered (not_registered_message ''x'')), new_bus)
   \<and> fst (subscribe ''x'' (VFun (Fn 0)) (snd (setup_events (VArr [VStr ''x'']) new_bus))) = Returned (Token ''x'' (Fn 0))"
  using subscribe_gated[of "''x''" "Fn 0" new_bus]
  by (simp add: new_bus_def)

lemma set_add_idem: "set_add x (set_add x xs) = set_add x xs"
  by (simp add: set_add_def)


subsection \<open>clear\<close>

text \<open>
  Claim C6. \<open>clear\<close> has no \<open>throw\<close> and reads the map only under its \<open>has\<close> check, so
  it returns a state for every input. Without an entry for \<open>e\<close> the state is
  unchanged. With one, the subscriber set of \<open>e\<close> is empty afterwards, every other
  entry and \<open>registeredEvents\<close> are unchanged, and (the two structures agreeing, as they
  do in every reachable state) \<open>e\<close> is still registered and \<open>subscribe(e, fn)\<close>
  succeeds, leaving \<open>fn\<close> as the only subscriber.
\<close>

theorem clear_frame:
  "(events b e = None \<longrightarrow> clear e b = b)
   \<and> (events b e \<noteq> None \<longrightarrow>
        events (clear e b) e = Some []
        \<and> (\<forall>e'. e' \<noteq> e \<longrightarrow> events (clear e b) e' = events b e'))
   \<and> registeredEvents (clear e b) = registeredEvents b
   \<and> (events b e \<noteq> None \<and> dom (events b) = registeredEvents b \<longrightarrow>
        e \<in> registeredEvents (clear e b)
        \<and> subscribe e (VFun fn) (clear e b) =
            (Returned (Token e fn), (clear e b)\<lparr>events := (events (clear e b))(e \<mapsto> [fn])\<rparr>))"
  by (auto simp: clear_def subscribe_def set_add_def split: option.splits)

theorem clear_frame_witness:
  "events (clear ''e'' (snd (subscribe ''e'' (VFun (Fn 0)) (snd (setup_events (VArr [VStr ''e'', VStr ''f'']) new_bus))))) ''e'' = Some []
   \<and> fst (subscribe ''e'' (VFun (Fn 1)) (clear ''e'' (snd (subscribe ''e'' (VFun (Fn 0)) (snd (setup_events (VArr [VStr ''e'', VStr ''f'']) new_bus)))))) = Returned (Token ''e'' (Fn 1))
   \<and> clear ''g'' new_bus = new_bus"
  using clear_frame[of "snd (subscribe ''e'' (VFun (Fn 0)) (snd (setup_events (VArr [VStr ''e'', VStr ''f'']) new_bus)))" "''e''" "Fn 1"]
        clear_frame[of new_bus "''g''" "Fn 1"]
  by (simp add: new_bus_def setup_events_def subscribe_def set_add_def)

subsection \<open>reset\<close>



section \<open>The invariants of the machine\<close>

subsection \<open>The bus invariant\<close>

lemma distinct_set_add: "distinct xs \<Longrightarrow> distinct (set_add x xs)"
  by (simp add: set_add_def)

lemma distinct_set_delete: "distinct xs \<Longrightarrow> distinct (set_delete x xs)"
  by (simp add: set_delete_def distinct_removeAll)

lemma bus_ok_setup_loop: "bus_ok b \<Longrightarrow> bus_ok (snd (setup_loop xs b))"
proof (induction xs arbitrary: b)
  case Nil
  then show ?case by simp
next
  case (Cons x xs)
  show ?case
  proof (cases x)
    case (VStr name)
    have "bus_ok (b\<lparr>registeredEvents := insert name (registeredEvents b),
               events := (if events b name = None then (events b)(name \<mapsto> []) else events b)\<rparr>)"
      using Cons.prems by (auto simp: bus_ok_def split: if_splits)
    then show ?thesis using VStr Cons.IH by simp
  qed (use Cons.prems in simp_all)
qed

lemma bus_ok_setup: "bus_ok b \<Longrightarrow> bus_ok (snd (setup_events v b))"
  by (cases v) (simp_all add: setup_events_def bus_ok_setup_loop)

lemma bus_ok_subscribe: "bus_ok b \<Longrightarrow> bus_ok (snd (subscribe e cb b))"
  by (cases cb) (auto simp: subscribe_def bus_ok_def distinct_set_add split: option.splits if_splits)

lemma bus_ok_once: "bus_ok b \<Longrightarrow> bus_ok (snd (once e cb i b))"
  by (cases cb) (simp_all add: once_def bus_ok_subscribe)

lemma bus_ok_unsubscribe: "bus_ok b \<Longrightarrow> bus_ok (unsubscribe e cb b)"
  by (cases cb) (auto simp: unsubscribe_def bus_ok_def distinct_set_delete split: option.splits if_splits)

lemma bus_ok_clear: "bus_ok b \<Longrightarrow> bus_ok (clear e b)"
  by (auto simp: clear_def bus_ok_def split: option.splits if_splits)

lemma bus_ok_reset: "bus_ok (reset b)"
  by (simp add: reset_def bus_ok_def)

lemma bus_ok_new: "bus_ok new_bus"
  by (simp add: new_bus_def bus_ok_def)


subsection \<open>Promises only settle\<close>

lemma tmono_refl: "tmono ts ts"
  by (simp add: tmono_def)

lemma tmono_trans:
  assumes "tmono a b" "tmono b c"
  shows "tmono a c"
proof -
  have len: "length a \<le> length b" "length b \<le> length c"
    using assms by (simp_all add: tmono_def)
  have "\<forall>t < length a.
          (task_state (a ! t) \<noteq> Pending \<longrightarrow> c ! t = a ! t)
          \<and> (\<not> is_body (a ! t) \<longrightarrow> task_cont (c ! t) = task_cont (a ! t))"
  proof (intro allI impI conjI)
    fix t assume t: "t < length a" and s: "task_state (a ! t) \<noteq> Pending"
    from assms(1) t s have "b ! t = a ! t" by (simp add: tmono_def)
    moreover from t len have "t < length b" by simp
    ultimately show "c ! t = a ! t" using assms(2) s by (simp add: tmono_def)
  next
    fix t assume t: "t < length a" and s: "\<not> is_body (a ! t)"
    from assms(1) t s have e: "task_cont (b ! t) = task_cont (a ! t)" by (simp add: tmono_def)
    then have "\<not> is_body (b ! t)" using s by (simp add: is_body_def)
    moreover from t len have "t < length b" by simp
    ultimately show "task_cont (c ! t) = task_cont (a ! t)" using assms(2) e by (simp add: tmono_def)
  qed
  with len show ?thesis by (simp add: tmono_def)
qed

lemma tmono_append: "tmono ts (ts @ xs)"
  by (simp add: tmono_def nth_append)

lemma tmono_prefix: "prefix ts ts' \<Longrightarrow> tmono ts ts'"
  by (auto simp: prefix_def tmono_append)

lemma tmono_update:
  "t < length ts \<Longrightarrow> task_state (ts ! t) = Pending \<Longrightarrow>
   (\<not> is_body (ts ! t) \<Longrightarrow> task_cont x = task_cont (ts ! t)) \<Longrightarrow> tmono ts (ts[t := x])"
  by (auto simp: tmono_def nth_list_update)

lemma settled_mono:
  "settled ts r \<noteq> Pending \<Longrightarrow> tmono ts ts' \<Longrightarrow> settled ts' r = settled ts r"
  by (auto simp: settled_def tmono_def split: result.splits retval.splits if_splits)

lemma is_arrow_not_body: "is_arrow t \<Longrightarrow> \<not> is_body t"
  by (auto simp: is_arrow_def is_body_def split: cont.splits)

lemma is_arrow_mono:
  assumes "tmono ts ts'" "p < length ts" "is_arrow (ts ! p)"
  shows "is_arrow (ts' ! p)"
proof -
  from assms(3) have "\<not> is_body (ts ! p)" by (rule is_arrow_not_body)
  with assms(1,2) have "task_cont (ts' ! p) = task_cont (ts ! p)" by (simp add: tmono_def)
  with assms(3) show ?thesis by (simp add: is_arrow_def)
qed

lemma task_ok_mono:
  assumes "task_ok ts con t" "tmono ts ts'" "set con \<subseteq> set con'"
  shows "task_ok ts' con' t"
proof (cases "task_cont t")
  case (CBody w rest)
  then show ?thesis by (simp add: task_ok_def)
next
  case (CArrow ev r)
  show ?thesis
  proof (cases "task_state t = Fulfilled")
    case True
    with assms(1) CArrow have s: "settled ts r \<noteq> Pending"
      and l: "\<forall>e. settled ts r = Rejected e \<longrightarrow> (ev, e) \<in> set con"
      by (auto simp: task_ok_def)
    from settled_mono[OF s assms(2)] s l assms(3) True CArrow show ?thesis
      by (auto simp: task_ok_def)
  next
    case False
    with assms(1) CArrow show ?thesis by (auto simp: task_ok_def)
  qed
next
  case (CWrapper r)
  with assms(1) settled_mono[OF _ assms(2), of r] show ?thesis
    by (auto simp: task_ok_def)
next
  case (CEmit ps)
  with assms(1) have a: "\<forall>e. task_state t \<noteq> Rejected e"
    and b: "\<forall>p \<in> set ps. p < length ts \<and> is_arrow (ts ! p)"
    and c: "task_state t = Fulfilled \<longrightarrow> (\<forall>p \<in> set ps. task_state (ts ! p) = Fulfilled)"
    by (auto simp: task_ok_def)
  have b': "\<forall>p \<in> set ps. p < length ts' \<and> is_arrow (ts' ! p)"
    using b assms(2) is_arrow_mono[OF assms(2)] by (auto simp: tmono_def)
  have c': "task_state t = Fulfilled \<longrightarrow> (\<forall>p \<in> set ps. task_state (ts' ! p) = Fulfilled)"
  proof (intro impI ballI)
    fix p assume "task_state t = Fulfilled" "p \<in> set ps"
    with b c have "p < length ts" "task_state (ts ! p) = Fulfilled" by auto
    with assms(2) show "task_state (ts' ! p) = Fulfilled" by (auto simp: tmono_def)
  qed
  from a b' c' CEmit show ?thesis by (simp add: task_ok_def)
qed


subsection \<open>What a synchronous computation leaves as it is\<close>

lemma sgood_refl: "sgood K c c"
  by (simp add: sgood_def)

lemma sgood_trans:
  assumes "sgood K a b" "sgood K b c"
  shows "sgood K a c"
proof -
  have le: "emissions a \<le> emissions b" "emissions b \<le> emissions c"
    and nw: "next_wrapper a \<le> next_wrapper c"
    using assms by (simp_all add: sgood_def)
  have "\<forall>k < emissions a. k \<notin> K \<longrightarrow> by_emit k (invoked c) = by_emit k (invoked a)"
  proof (intro allI impI)
    fix k assume k: "k < emissions a" "k \<notin> K"
    then have "by_emit k (invoked b) = by_emit k (invoked a)" using assms(1) by (simp add: sgood_def)
    moreover from k le have "k < emissions b" by simp
    then have "by_emit k (invoked c) = by_emit k (invoked b)" using assms(2) k by (simp add: sgood_def)
    ultimately show "by_emit k (invoked c) = by_emit k (invoked a)" by simp
  qed
  moreover have "prefix (tasks a) (tasks c)" "prefix (console a) (console c)" "inv a \<longrightarrow> inv c"
    using assms by (auto simp: sgood_def)
  ultimately show ?thesis using le nw by (simp add: sgood_def)
qed

lemma sgood_weaken: "sgood {} c c' \<Longrightarrow> sgood K c c'"
  by (simp add: sgood_def)

lemma sgood_close:
  assumes "sgood {k} a b" "emissions a \<le> k"
  shows "sgood {} a b"
  using assms by (auto simp: sgood_def)

lemma sgood_bus:
  "(bus_ok (bus c) \<Longrightarrow> bus_ok b') \<Longrightarrow> sgood K c (c\<lparr>bus := b'\<rparr>)"
  by (simp add: sgood_def inv_def)

lemma sgood_bus_counter:
  "(bus_ok (bus c) \<Longrightarrow> bus_ok b') \<Longrightarrow> sgood K c (c\<lparr>bus := b', next_wrapper := Suc (next_wrapper c)\<rparr>)"
  by (simp add: sgood_def inv_def)

lemma by_emit_append: "by_emit k (xs @ ys) = by_emit k xs @ by_emit k ys"
  by (simp add: by_emit_def)

lemma sgood_wrapper_enter:
  "sgood K c (c\<lparr>bus := unsubscribe e cb (bus c), invoked := invoked c @ [(ByWrapper i, h, a)]\<rparr>)"
  by (simp add: sgood_def inv_def by_emit_def tags_ok_def bus_ok_unsubscribe)

lemma sgood_arrow_enter:
  "k < emissions c \<Longrightarrow> sgood {k} c (c\<lparr>invoked := invoked c @ [(ByEmit k, h, a)]\<rparr>)"
  by (auto simp: sgood_def inv_def by_emit_def tags_ok_def)

lemma sgood_emit_begin: "sgood K c (c\<lparr>emissions := Suc (emissions c)\<rparr>)"
  by (auto simp: sgood_def inv_def tags_ok_def less_Suc_eq)

lemma tasks_ok_alloc:
  assumes "\<forall>t \<in> set ts. task_ok ts con t" "task_ok (ts @ [x]) con' x" "set con \<subseteq> set con'"
  shows "\<forall>t \<in> set (ts @ [x]). task_ok (ts @ [x]) con' t"
  using assms task_ok_mono[OF _ tmono_append[of ts "[x]"] assms(3)] by auto

lemma sgood_alloc:
  assumes "inv c \<Longrightarrow> task_ok (tasks c @ [x]) (console c) x"
  shows "sgood K c (snd (alloc x c))"
proof -
  have "inv c \<longrightarrow> inv (snd (alloc x c))"
    using assms tasks_ok_alloc[of "tasks c" "console c" x "console c"]
    by (simp add: inv_def alloc_def)
  then show ?thesis by (simp add: sgood_def alloc_def)
qed

lemma sgood_alloc_logged:
  "sgood K c (snd (alloc (Task (CArrow ev (Thrown e)) Fulfilled) (c\<lparr>console := console c @ [(ev, e)]\<rparr>)))"
proof -
  let ?x = "Task (CArrow ev (Thrown e)) Fulfilled"
  have "task_ok (tasks c @ [?x]) (console c @ [(ev, e)]) ?x"
    by (simp add: task_ok_def settled_def)
  then have "inv c \<longrightarrow> inv (snd (alloc ?x (c\<lparr>console := console c @ [(ev, e)]\<rparr>)))"
    using tasks_ok_alloc[of "tasks c" "console c" ?x "console c @ [(ev, e)]"]
    by (auto simp: inv_def alloc_def)
  then show ?thesis by (simp add: sgood_def alloc_def)
qed

lemma task_ok_body [simp]: "task_ok ts con (body_task out)"
  by (simp add: task_ok_def body_task_def split: outcome.splits)

lemma task_ok_wrapper [simp]: "task_ok ts con (wrapper_task r)"
  by (simp add: task_ok_def wrapper_task_def settled_def split: result.splits)

lemma task_ok_arrow_pending [simp]: "task_ok ts con (Task (CArrow ev r) Pending)"
  by (simp add: task_ok_def)

subsection \<open>Host code\<close>

lemma do_action_good:
  assumes E: "emitter_good E"
    and "do_action E a c = Some (r, c')"
  shows "sgood {} c c'"
proof (cases a)
  case (AEmit ev args)
  with assms(2) E show ?thesis by (auto simp: emitter_good_def split: option.splits)
qed (use assms(2) in \<open>auto simp: sgood_refl intro!: sgood_bus sgood_bus_counter
      bus_ok_setup bus_ok_subscribe bus_ok_once bus_ok_unsubscribe bus_ok_clear bus_ok_reset\<close>)

lemma run_sync_good:
  assumes E: "emitter_good E"
  shows "run_sync E ss c = Some (r, c') \<Longrightarrow> sgood {} c c'"
proof (induction ss arbitrary: c)
  case Nil
  then show ?case by (simp add: sgood_refl)
next
  case (Cons s ss)
  show ?case
  proof (cases s)
    case (Do a)
    with Cons.prems obtain r1 c1 where 1: "do_action E a c = Some (r1, c1)"
      by (auto split: option.splits)
    note g = do_action_good[OF E 1]
    show ?thesis
    proof (cases r1)
      case (Returned u)
      with Cons.prems Do 1 have "run_sync E ss c1 = Some (r, c')" by simp
      from sgood_trans[OF g Cons.IH[OF this]] show ?thesis .
    next
      case (Thrown e)
      with Cons.prems Do 1 have "c' = c1" by simp
      with g show ?thesis by simp
    qed
  next
    case (Try a)
    with Cons.prems obtain r1 c1 where 1: "do_action E a c = Some (r1, c1)"
      and 2: "run_sync E ss c1 = Some (r, c')"
      by (auto split: option.splits)
    from sgood_trans[OF do_action_good[OF E 1] Cons.IH[OF 2]] show ?thesis .
  qed
qed

lemma run_async_good:
  assumes E: "emitter_good E"
  shows "run_async E ss c = Some (out, c') \<Longrightarrow> sgood {} c c'"
proof (induction ss arbitrary: c)
  case Nil
  then show ?case by (simp add: sgood_refl)
next
  case (Cons s ss)
  show ?case
  proof (cases s)
    case (Sync x)
    show ?thesis
    proof (cases x)
      case (Do a)
      with Cons.prems Sync obtain r1 c1 where 1: "do_action E a c = Some (r1, c1)"
        by (auto split: option.splits)
      note g = do_action_good[OF E 1]
      show ?thesis
      proof (cases r1)
        case (Returned u)
        with Cons.prems Sync Do 1 have "run_async E ss c1 = Some (out, c')" by simp
        from sgood_trans[OF g Cons.IH[OF this]] show ?thesis .
      next
        case (Thrown e)
        with Cons.prems Sync Do 1 have "c' = c1" by simp
        with g show ?thesis by simp
      qed
    next
      case (Try a)
      with Cons.prems Sync obtain r1 c1 where 1: "do_action E a c = Some (r1, c1)"
        and 2: "run_async E ss c1 = Some (out, c')"
        by (auto split: option.splits)
      from sgood_trans[OF do_action_good[OF E 1] Cons.IH[OF 2]] show ?thesis .
    qed
  next
    case Await
    with Cons.prems show ?thesis by (simp add: sgood_refl)
  next
    case (AwaitEmit ev args)
    with Cons.prems E show ?thesis by (auto simp: emitter_good_def split: option.splits)
  qed
qed

lemma call_handler_good':
  assumes E: "emitter_good E"
  shows "call_handler E env h args c = Some (r, c') \<Longrightarrow> sgood {} c c'"
proof (induction h arbitrary: c r c')
  case (Fn f)
  show ?case
  proof (cases "env f")
    case (SyncFn body)
    with Fn obtain r1 where "run_sync E body c = Some (r1, c')"
      by (auto split: option.splits result.splits)
    from run_sync_good[OF E this] show ?thesis .
  next
    case (AsyncFn body)
    with Fn obtain out c1 where 1: "run_async E body c = Some (out, c1)"
      and 2: "c' = snd (alloc (body_task out) c1)"
      by (auto split: option.splits)
    have "sgood {} c1 c'" unfolding 2 by (rule sgood_alloc) simp
    from sgood_trans[OF run_async_good[OF E 1] this] show ?thesis .
  qed
next
  case (OnceWrapper i ev cb)
  let ?c0 = "c\<lparr>bus := unsubscribe ev (VFun (OnceWrapper i ev cb)) (bus c),
                invoked := invoked c @ [(ByWrapper i, cb, args)]\<rparr>"
  from OnceWrapper.prems obtain r1 c1 where 1: "call_handler E env cb args ?c0 = Some (r1, c1)"
    and 2: "c' = snd (alloc (wrapper_task r1) c1)"
    by (auto split: option.splits)
  have a: "sgood {} c ?c0" by (rule sgood_wrapper_enter)
  have b: "sgood {} c1 c'" unfolding 2 by (rule sgood_alloc) simp
  from sgood_trans[OF sgood_trans[OF a OnceWrapper.IH[OF 1]] b] show ?case .
qed


lemma call_handler_good: "emitter_good E \<Longrightarrow> invoker_good (call_handler E env)"
  unfolding invoker_good_def using call_handler_good' by blast

subsection \<open>emit\<close>

lemma by_emit_snoc_same: "by_emit k (xs @ [(ByEmit k, h, a)]) = by_emit k xs @ [(ByEmit k, h, a)]"
  by (simp add: by_emit_def)

lemma arrow_of_is_arrow: "arrow_of ev t \<Longrightarrow> is_arrow t"
  by (auto simp: arrow_of_def is_arrow_def split: cont.splits)

lemma arrow_good:
  assumes CALL: "invoker_good call"
    and k: "k < emissions c"
    and a: "arrow call k ev args h c = Some (t, c')"
  shows "sgood {k} c c'
     \<and> by_emit k (invoked c') = by_emit k (invoked c) @ [(ByEmit k, h, args)]
     \<and> t < length (tasks c') \<and> arrow_of ev (tasks c' ! t)"
proof -
  let ?c0 = "c\<lparr>invoked := invoked c @ [(ByEmit k, h, args)]\<rparr>"
  from a obtain r c1 where 1: "call h args ?c0 = Some (r, c1)"
    by (auto simp: arrow_def split: option.splits)
  from CALL 1 have g1: "sgood {} ?c0 c1" by (auto simp: invoker_good_def)
  have g0: "sgood {k} c ?c0" using k by (rule sgood_arrow_enter)
  have k0: "k < emissions ?c0" using k by simp
  have inv1: "by_emit k (invoked c1) = by_emit k (invoked c) @ [(ByEmit k, h, args)]"
    using g1 k0 by (simp add: sgood_def by_emit_snoc_same)
  have g01: "sgood {k} c c1" using g0 g1 by (meson sgood_trans sgood_weaken)
  show ?thesis
  proof (cases r)
    case (Thrown e)
    with a 1 have c': "c' = snd (alloc (Task (CArrow ev (Thrown e)) Fulfilled) (c1\<lparr>console := console c1 @ [(ev, e)]\<rparr>))"
      and t: "t = length (tasks c1)"
      by (auto simp: arrow_def alloc_def)
    have "sgood {k} c1 c'" unfolding c' by (rule sgood_alloc_logged)
    with g01 have "sgood {k} c c'" by (rule sgood_trans)
    then show ?thesis
      using inv1 by (simp add: c' t alloc_def arrow_of_def)
  next
    case (Returned v)
    with a 1 have c': "c' = snd (alloc (Task (CArrow ev (Returned v)) Pending) c1)"
      and t: "t = length (tasks c1)"
      by (auto simp: arrow_def alloc_def)
    have "sgood {k} c1 c'" unfolding c' by (rule sgood_alloc) simp
    with g01 have "sgood {k} c c'" by (rule sgood_trans)
    then show ?thesis
      using inv1 by (simp add: c' t alloc_def arrow_of_def)
  qed
qed

lemma prefix_nth: "prefix xs ys \<Longrightarrow> i < length xs \<Longrightarrow> ys ! i = xs ! i"
  by (auto simp: prefix_def nth_append)

lemma dispatch_good:
  assumes CALL: "invoker_good call"
  shows "k < emissions c \<Longrightarrow> dispatch call k ev args hs c = Some (ps, c') \<Longrightarrow>
     sgood {k} c c'
     \<and> by_emit k (invoked c') = by_emit k (invoked c) @ map (\<lambda>h. (ByEmit k, h, args)) hs
     \<and> length ps = length hs
     \<and> (\<forall>p \<in> set ps. p < length (tasks c') \<and> arrow_of ev (tasks c' ! p))"
proof (induction hs arbitrary: c ps)
  case Nil
  then show ?case by (simp add: sgood_refl)
next
  case (Cons h hs)
  from Cons.prems(2) obtain t c1 ps' where 1: "arrow call k ev args h c = Some (t, c1)"
    and 2: "dispatch call k ev args hs c1 = Some (ps', c')" and ps: "ps = t # ps'"
    by (auto split: option.splits)
  from arrow_good[OF CALL Cons.prems(1) 1]
  have a1: "sgood {k} c c1"
    and a2: "by_emit k (invoked c1) = by_emit k (invoked c) @ [(ByEmit k, h, args)]"
    and a3: "t < length (tasks c1)" and a4: "arrow_of ev (tasks c1 ! t)"
    by simp_all
  have k1: "k < emissions c1" using a1 Cons.prems(1) by (simp add: sgood_def)
  from Cons.IH[OF k1 2]
  have d1: "sgood {k} c1 c'"
    and d2: "by_emit k (invoked c') = by_emit k (invoked c1) @ map (\<lambda>h. (ByEmit k, h, args)) hs"
    and d3: "length ps' = length hs"
    and d4: "\<forall>p \<in> set ps'. p < length (tasks c') \<and> arrow_of ev (tasks c' ! p)"
    by simp_all
  from d1 have pre: "prefix (tasks c1) (tasks c')" by (simp add: sgood_def)
  have t: "t < length (tasks c')" "arrow_of ev (tasks c' ! t)"
    using a3 a4 prefix_nth[OF pre a3] prefix_length_le[OF pre] by auto
  have "sgood {k} c c'" using a1 d1 by (rule sgood_trans)
  with a2 d2 d3 d4 t ps show ?case by simp
qed

lemma inv_tasks_okD: "inv c \<Longrightarrow> t \<in> set (tasks c) \<Longrightarrow> task_ok (tasks c) (console c) t"
  by (simp add: inv_def)

lemma emit_good:
  assumes CALL: "invoker_good call"
    and e: "emit call ev args c = Some (t, c')"
  shows "sgood {} c c' \<and> t < length (tasks c') \<and> length (tasks c) \<le> t
     \<and> (events (bus c) ev = None \<longrightarrow> tasks c' ! t = Task (CEmit []) Fulfilled)
     \<and> (\<forall>subs. events (bus c) ev = Some subs \<longrightarrow>
           (\<exists>ps. tasks c' ! t = Task (CEmit ps) Pending \<and> length ps = length subs
                 \<and> (\<forall>p \<in> set ps. p < t \<and> arrow_of ev (tasks c' ! p)))
           \<and> emissions c < emissions c'
           \<and> by_emit (emissions c) (invoked c') =
               by_emit (emissions c) (invoked c) @ map (\<lambda>h. (ByEmit (emissions c), h, args)) subs)"
proof (cases "events (bus c) ev")
  case None
  with e have c': "c' = snd (alloc (Task (CEmit []) Fulfilled) c)" and t: "t = length (tasks c)"
    by (auto simp: emit_def alloc_def)
  have "sgood {} c c'" unfolding c' by (rule sgood_alloc) (simp add: task_ok_def)
  with None show ?thesis by (simp add: c' t alloc_def)
next
  case (Some subs)
  let ?k = "emissions c"
  let ?c0 = "c\<lparr>emissions := Suc ?k\<rparr>"
  from e Some obtain ps c1 where 1: "dispatch call ?k ev args subs ?c0 = Some (ps, c1)"
    and c': "c' = snd (alloc (Task (CEmit ps) Pending) c1)" and t: "t = length (tasks c1)"
    by (auto simp: emit_def alloc_def split: option.splits)
  have k0: "?k < emissions ?c0" by simp
  from dispatch_good[OF CALL k0 1]
  have d1: "sgood {?k} ?c0 c1"
    and d2: "by_emit ?k (invoked c1) = by_emit ?k (invoked c) @ map (\<lambda>h. (ByEmit ?k, h, args)) subs"
    and d3: "length ps = length subs"
    and d4: "\<forall>p \<in> set ps. p < length (tasks c1) \<and> arrow_of ev (tasks c1 ! p)"
    by simp_all
  have k1: "?k < emissions c1" using d1 by (simp add: sgood_def)
  have "sgood {?k} c ?c0" by (rule sgood_emit_begin)
  from this d1 have "sgood {?k} c c1" by (rule sgood_trans)
  then have g1: "sgood {} c c1" by (rule sgood_close) simp
  have ok: "task_ok (tasks c1 @ [Task (CEmit ps) Pending]) (console c1) (Task (CEmit ps) Pending)"
    using d4 by (auto simp: task_ok_def nth_append arrow_of_is_arrow)
  have "sgood {} c1 c'" unfolding c' by (rule sgood_alloc) (rule ok)
  with g1 have g: "sgood {} c c'" by (rule sgood_trans)
  from g1 have "length (tasks c) \<le> length (tasks c1)"
    by (auto simp: sgood_def dest: prefix_length_le)
  with g d2 d3 d4 k1 Some show ?thesis
    by (auto simp: c' t alloc_def nth_append)
qed

lemma emit_fuel_good: "emitter_good (emit_fuel n env)"
proof (induction n)
  case 0
  show ?case by (simp add: emitter_good_def)
next
  case (Suc n)
  from call_handler_good[OF Suc, of env] have "invoker_good (call_handler (emit_fuel n env) env)" .
  from emit_good[OF this] show ?case
    unfolding emitter_good_def by auto
qed

subsection \<open>Turns of the event loop\<close>

lemma tgood_refl: "tgood c c"
  by (simp add: tgood_def tmono_refl)

lemma tgood_trans:
  assumes "tgood a b" "tgood b c"
  shows "tgood a c"
proof -
  have le: "emissions a \<le> emissions b" "emissions b \<le> emissions c"
    and nw: "next_wrapper a \<le> next_wrapper c"
    using assms by (simp_all add: tgood_def)
  have "\<forall>k < emissions a. by_emit k (invoked c) = by_emit k (invoked a)"
  proof (intro allI impI)
    fix k assume k: "k < emissions a"
    then have "by_emit k (invoked b) = by_emit k (invoked a)" using assms(1) by (simp add: tgood_def)
    moreover from k le have "k < emissions b" by simp
    then have "by_emit k (invoked c) = by_emit k (invoked b)" using assms(2) by (simp add: tgood_def)
    ultimately show "by_emit k (invoked c) = by_emit k (invoked a)" by simp
  qed
  moreover have "tmono (tasks a) (tasks c)"
    using assms tmono_trans by (auto simp: tgood_def)
  moreover have "set (console a) \<subseteq> set (console c)" "inv a \<longrightarrow> inv c"
    using assms by (auto simp: tgood_def)
  ultimately show ?thesis using le nw by (simp add: tgood_def)
qed

lemma sgood_tgood: "sgood {} c c' \<Longrightarrow> tgood c c'"
  by (auto simp: sgood_def tgood_def tmono_prefix dest: set_mono_prefix)

lemma tgood_update:
  assumes t: "t < length (tasks c)" and p: "task_state (tasks c ! t) = Pending"
    and k: "\<not> is_body (tasks c ! t) \<Longrightarrow> task_cont x = task_cont (tasks c ! t)"
    and ok: "inv c \<Longrightarrow> task_ok ((tasks c)[t := x]) (console c @ extra) x"
  shows "tgood c (c\<lparr>console := console c @ extra, tasks := (tasks c)[t := x]\<rparr>)"
proof -
  have m: "tmono (tasks c) ((tasks c)[t := x])"
    using t p k by (rule tmono_update)
  have "inv c \<longrightarrow> inv (c\<lparr>console := console c @ extra, tasks := (tasks c)[t := x]\<rparr>)"
  proof
    assume i: "inv c"
    have "\<forall>y \<in> set ((tasks c)[t := x]). task_ok ((tasks c)[t := x]) (console c @ extra) y"
    proof
      fix y assume "y \<in> set ((tasks c)[t := x])"
      then have "y = x \<or> y \<in> set (tasks c)"
        using set_update_subset_insert[of "tasks c" t x] by auto
      then show "task_ok ((tasks c)[t := x]) (console c @ extra) y"
      proof
        assume "y = x" with ok[OF i] show ?thesis by simp
      next
        assume "y \<in> set (tasks c)"
        with i have "task_ok (tasks c) (console c) y" by (simp add: inv_def)
        then show ?thesis by (rule task_ok_mono[OF _ m]) auto
      qed
    qed
    with i show "inv (c\<lparr>console := console c @ extra, tasks := (tasks c)[t := x]\<rparr>)"
      by (simp add: inv_def)
  qed
  with m show ?thesis by (auto simp: tgood_def)
qed

lemma tgood_set_state:
  assumes t: "t < length (tasks c)" and p: "task_state (tasks c ! t) = Pending"
    and ok: "inv c \<Longrightarrow>
      task_ok ((tasks c)[t := Task (task_cont (tasks c ! t)) st]) (console c) (Task (task_cont (tasks c ! t)) st)"
  shows "tgood c (set_state t st c)"
proof -
  have "tgood c (c\<lparr>console := console c @ [], tasks := (tasks c)[t := Task (task_cont (tasks c ! t)) st]\<rparr>)"
    using t p by (rule tgood_update) (use ok in simp_all)
  then show ?thesis by (simp add: set_state_def)
qed

lemma promise_all_Fulfilled:
  "promise_all ts ps = Fulfilled \<longleftrightarrow> (\<forall>p \<in> set ps. p < length ts \<and> task_state (ts ! p) = Fulfilled)"
  by (induction ps) (auto simp: settled_def split: pstate.splits if_splits)

lemma promise_all_Rejected:
  "promise_all ts ps = Rejected e \<Longrightarrow> \<exists>p \<in> set ps. p < length ts \<and> task_state (ts ! p) = Rejected e"
  by (induction ps) (auto simp: settled_def split: pstate.splits if_splits)

lemma settled_after_update:
  assumes "settled ts r \<noteq> Pending" "t < length ts" "task_state (ts ! t) = Pending"
  shows "settled (ts[t := x]) r = settled ts r"
  using assms by (auto simp: settled_def nth_list_update split: result.splits retval.splits)

lemma resume_arrow_good:
  assumes t: "t < length (tasks c)" and p: "task_state (tasks c ! t) = Pending"
    and k: "task_cont (tasks c ! t) = CArrow ev r"
    and r: "resume E t c = Some c'"
  shows "tgood c c'"
proof (cases "settled (tasks c) r")
  case Pending
  with t p k r show ?thesis by (simp add: resume_def tgood_refl)
next
  case Fulfilled
  with t p k r have c': "c' = set_state t Fulfilled c" by (simp add: resume_def)
  have "settled ((tasks c)[t := Task (CArrow ev r) Fulfilled]) r = Fulfilled"
    using settled_after_update[of "tasks c" r t] Fulfilled t p by simp
  then show ?thesis unfolding c'
    using t p k by (intro tgood_set_state) (simp_all add: task_ok_def)
next
  case (Rejected e)
  with t p k r have c': "c' = set_state t Fulfilled (c\<lparr>console := console c @ [(ev, e)]\<rparr>)"
    by (simp add: resume_def)
  have s: "settled ((tasks c)[t := Task (CArrow ev r) Fulfilled]) r = Rejected e"
    using settled_after_update[of "tasks c" r t] Rejected t p by simp
  have "tgood c (c\<lparr>console := console c @ [(ev, e)], tasks := (tasks c)[t := Task (CArrow ev r) Fulfilled]\<rparr>)"
    using t p by (rule tgood_update) (use k s in \<open>simp_all add: task_ok_def\<close>)
  then show ?thesis by (simp add: c' set_state_def k)
qed

lemma resume_wrapper_good:
  assumes t: "t < length (tasks c)" and p: "task_state (tasks c ! t) = Pending"
    and k: "task_cont (tasks c ! t) = CWrapper r"
    and r: "resume E t c = Some c'"
  shows "tgood c c'"
proof (cases "settled (tasks c) r = Pending")
  case True
  with t p k r show ?thesis by (simp add: resume_def tgood_refl)
next
  case False
  with t p k r have c': "c' = set_state t (settled (tasks c) r) c"
    by (auto simp: resume_def split: pstate.splits)
  have "settled ((tasks c)[t := Task (CWrapper r) (settled (tasks c) r)]) r \<noteq> Pending"
    using settled_after_update[of "tasks c" r t] False t p by simp
  then show ?thesis unfolding c'
    using t p k by (intro tgood_set_state) (simp_all add: task_ok_def)
qed

lemma resume_emit_good:
  assumes t: "t < length (tasks c)" and p: "task_state (tasks c ! t) = Pending"
    and k: "task_cont (tasks c ! t) = CEmit ps"
    and r: "resume E t c = Some c'"
  shows "tgood c c'"
proof (cases "inv c")
  case False
  have m: "tmono (tasks c) (tasks c')" "emissions c' = emissions c" "invoked c' = invoked c"
          "console c' = console c" "next_wrapper c' = next_wrapper c"
    using t p k r
    by (auto simp: resume_def set_state_def tmono_refl intro!: tmono_update split: pstate.splits)
  with False show ?thesis by (simp add: tgood_def)
next
  case True
  have tk: "tasks c ! t \<in> set (tasks c)" using t by simp
  with True have ok: "task_ok (tasks c) (console c) (tasks c ! t)" by (simp add: inv_def)
  with k have arrows: "\<forall>p \<in> set ps. p < length (tasks c) \<and> is_arrow (tasks c ! p)"
    by (simp add: task_ok_def)
  have norej: "\<forall>e. promise_all (tasks c) ps \<noteq> Rejected e"
  proof (intro allI notI)
    fix e assume "promise_all (tasks c) ps = Rejected e"
    then obtain q where q: "q \<in> set ps" "q < length (tasks c)" "task_state (tasks c ! q) = Rejected e"
      using promise_all_Rejected by blast
    with arrows have a: "is_arrow (tasks c ! q)" by simp
    from q True have "task_ok (tasks c) (console c) (tasks c ! q)" by (simp add: inv_def)
    with a q(3) show False by (auto simp: task_ok_def is_arrow_def split: cont.splits)
  qed
  show ?thesis
  proof (cases "promise_all (tasks c) ps")
    case Pending
    with t p k r show ?thesis by (simp add: resume_def tgood_refl)
  next
    case (Rejected e)
    with norej show ?thesis by simp
  next
    case Fulfilled
    with t p k r have c': "c' = set_state t Fulfilled c" by (simp add: resume_def)
    from Fulfilled have all: "\<forall>q \<in> set ps. q < length (tasks c) \<and> task_state (tasks c ! q) = Fulfilled"
      by (simp add: promise_all_Fulfilled)
    have "task_ok ((tasks c)[t := Task (CEmit ps) Fulfilled]) (console c) (Task (CEmit ps) Fulfilled)"
      using all arrows t p k
      by (auto simp: task_ok_def nth_list_update is_arrow_def)
    then show ?thesis unfolding c'
      using t p k by (intro tgood_set_state) simp_all
  qed
qed

lemma resume_body_good:
  assumes E: "emitter_good E"
    and t: "t < length (tasks c)" and p: "task_state (tasks c ! t) = Pending"
    and k: "task_cont (tasks c ! t) = CBody w rest"
    and r: "resume E t c = Some c'"
  shows "tgood c c'"
proof (cases "settled (tasks c) (Returned w)")
  case Pending
  with t p k r show ?thesis by (simp add: resume_def tgood_refl)
next
  case (Rejected e)
  with t p k r have c': "c' = set_state t (Rejected e) c" by (simp add: resume_def)
  show ?thesis unfolding c'
    using t p k by (intro tgood_set_state) (simp_all add: task_ok_def)
next
  case Fulfilled
  with t p k r obtain out c1 where 1: "run_async E rest c = Some (out, c1)"
    and c': "c' = c1\<lparr>tasks := (tasks c1)[t := body_task out]\<rparr>"
    by (auto simp: resume_def split: option.splits)
  from run_async_good[OF E 1] have g: "sgood {} c c1" .
  then have pre: "prefix (tasks c) (tasks c1)" by (simp add: sgood_def)
  have t1: "t < length (tasks c1)" using t prefix_length_le[OF pre] by simp
  have same: "tasks c1 ! t = tasks c ! t" using prefix_nth[OF pre t] .
  have "tgood c1 (c1\<lparr>console := console c1 @ [], tasks := (tasks c1)[t := body_task out]\<rparr>)"
    using t1 by (rule tgood_update) (use same p k in \<open>simp_all add: is_body_def\<close>)
  then have "tgood c1 c'" by (simp add: c')
  with sgood_tgood[OF g] show ?thesis by (rule tgood_trans)
qed

lemma resume_good:
  assumes E: "emitter_good E" and r: "resume E t c = Some c'"
  shows "tgood c c'"
proof (cases "t < length (tasks c) \<and> task_state (tasks c ! t) = Pending")
  case False
  with r show ?thesis by (auto simp: resume_def tgood_refl)
next
  case True
  then have t: "t < length (tasks c)" and p: "task_state (tasks c ! t) = Pending" by simp_all
  show ?thesis
  proof (cases "task_cont (tasks c ! t)")
    case (CBody w rest)
    from resume_body_good[OF E t p this r] show ?thesis .
  next
    case (CArrow ev x)
    from resume_arrow_good[OF t p this r] show ?thesis .
  next
    case (CWrapper x)
    from resume_wrapper_good[OF t p this r] show ?thesis .
  next
    case (CEmit ps)
    from resume_emit_good[OF t p this r] show ?thesis .
  qed
qed

lemma run_good:
  assumes E: "emitter_good E"
  shows "run E steps c = Some c' \<Longrightarrow> tgood c c'"
proof (induction steps arbitrary: c)
  case Nil
  then show ?case by (simp add: tgood_refl)
next
  case (Cons s steps)
  show ?case
  proof (cases s)
    case (Call a)
    with Cons.prems obtain r c1 where 1: "do_action E a c = Some (r, c1)"
      and 2: "run E steps c1 = Some c'"
      by (auto split: option.splits)
    from sgood_tgood[OF do_action_good[OF E 1]] Cons.IH[OF 2] show ?thesis by (rule tgood_trans)
  next
    case (Tick t)
    with Cons.prems obtain c1 where 1: "resume E t c = Some c1"
      and 2: "run E steps c1 = Some c'"
      by (auto split: option.splits)
    from resume_good[OF E 1] Cons.IH[OF 2] show ?thesis by (rule tgood_trans)
  qed
qed

lemma inv_init: "inv init"
  by (simp add: inv_def init_def bus_ok_new tags_ok_def)

section \<open>The claims about emit\<close>

lemma reach_inv:
  assumes "run (emit_fuel n env) steps init = Some c"
  shows "inv c"
  using run_good[OF emit_fuel_good assms] inv_init by (simp add: tgood_def)

text \<open>
  Claim C10. Whatever the host program does from the initial empty bus (calls of
  \<open>setup\<close>, \<open>subscribe\<close>, \<open>once\<close>, \<open>unsubscribe\<close>, \<open>emit\<close>, \<open>clear\<close> and
  \<open>reset\<close> at top level and inside handlers, failing calls included, and turns of the
  event loop in any order), the keys of the subscriber map are exactly the registered
  names.
\<close>

theorem registry_equals_map_keys:
  assumes "run (emit_fuel n env) steps init = Some c"
  shows "dom (events (bus c)) = registeredEvents (bus c)"
  using reach_inv[OF assms] by (simp add: inv_def bus_ok_def)

lemmas eval_simps = init_def new_bus_def setup_events_def subscribe_def once_def unsubscribe_def
  clear_def reset_def emit_def arrow_def alloc_def set_add_def set_delete_def void_def
  wrapper_task_def body_task_def resume_def settled_def set_state_def not_registered_message_def

lemma ops_steps_run: "run (emit_fuel 1 ops_env) ops_steps init \<noteq> None"
  by (simp add: ops_steps_def ops_env_def eval_simps)

theorem registry_equals_map_keys_witness:
  "\<exists>c. run (emit_fuel 1 ops_env) ops_steps init = Some c
       \<and> dom (events (bus c)) = registeredEvents (bus c)"
proof -
  from ops_steps_run obtain c where c: "run (emit_fuel 1 ops_env) ops_steps init = Some c" by blast
  from registry_equals_map_keys[OF c] c show ?thesis by blast
qed

lemma emit_fuel_emit:
  assumes "emit_fuel n env ev args c = Some (t, c')"
  shows "sgood {} c c' \<and> t < length (tasks c') \<and> length (tasks c) \<le> t
     \<and> (events (bus c) ev = None \<longrightarrow> tasks c' ! t = Task (CEmit []) Fulfilled)
     \<and> (\<forall>subs. events (bus c) ev = Some subs \<longrightarrow>
           (\<exists>ps. tasks c' ! t = Task (CEmit ps) Pending \<and> length ps = length subs
                 \<and> (\<forall>p \<in> set ps. p < t \<and> arrow_of ev (tasks c' ! p)))
           \<and> emissions c < emissions c'
           \<and> by_emit (emissions c) (invoked c') =
               by_emit (emissions c) (invoked c) @ map (\<lambda>h. (ByEmit (emissions c), h, args)) subs)"
proof (cases n)
  case 0
  with assms show ?thesis by simp
next
  case (Suc n')
  have "invoker_good (call_handler (emit_fuel n' env) env)"
    by (rule call_handler_good[OF emit_fuel_good])
  from emit_good[OF this] assms Suc show ?thesis by simp
qed

lemma by_emit_fresh: "tags_ok n xs \<Longrightarrow> by_emit n xs = []"
  by (auto simp: tags_ok_def by_emit_def filter_empty_conv)

lemma emit_snapshot:
  assumes i: "inv c" and subs: "events (bus c) ev = Some subs"
    and e: "emit_fuel n env ev args c = Some (t, c1)"
    and later: "run (emit_fuel m env) later c1 = Some c2"
  shows "by_emit (emissions c) (invoked c1) = map (\<lambda>h. (ByEmit (emissions c), h, args)) subs"
    and "by_emit (emissions c) (invoked c2) = map (\<lambda>h. (ByEmit (emissions c), h, args)) subs"
proof -
  from i have "by_emit (emissions c) (invoked c) = []"
    by (simp add: inv_def by_emit_fresh)
  with emit_fuel_emit[OF e] subs
  have 1: "by_emit (emissions c) (invoked c1) = map (\<lambda>h. (ByEmit (emissions c), h, args)) subs"
    and k: "emissions c < emissions c1"
    by simp_all
  show "by_emit (emissions c) (invoked c1) = map (\<lambda>h. (ByEmit (emissions c), h, args)) subs"
    by (rule 1)
  from run_good[OF emit_fuel_good later] k
  have "by_emit (emissions c) (invoked c2) = by_emit (emissions c) (invoked c1)"
    by (simp add: tgood_def)
  with 1 show "by_emit (emissions c) (invoked c2) = map (\<lambda>h. (ByEmit (emissions c), h, args)) subs"
    by simp
qed










section \<open>The order of the handlers, and once\<close>







text \<open>
  Claim C4 at a concrete program. Function 1 is subscribed to \<open>e\<close> and, when invoked,
  unsubscribes itself and calls \<open>emit('e')\<close>; then \<open>once('e', fn)\<close> (\<open>fn\<close> is function
  0) and \<open>await emit('e')\<close>. The emission takes the snapshot [function 1, wrapper].
  Function 1 runs first; the emission it starts takes the snapshot [wrapper] and calls
  the wrapper, which unsubscribes itself and calls \<open>fn\<close>. Back in the first emission,
  \<open>map\<close> goes on to the wrapper of its own snapshot and calls it: \<open>fn\<close> is called a
  second time. All promises are fulfilled before the second \<open>emit\<close>, which finds no
  subscriber.
\<close>

theorem once_handler_invoked_twice:
  "\<exists>c1 c2.
     run (emit_fuel 2 once_env) once_first init = Some c1
     \<and> map task_state (tasks c1) = replicate 7 Fulfilled
     \<and> filter (\<lambda>x. fst (snd x) = Fn 0) (invoked c1) = [(ByWrapper 0, Fn 0, []), (ByWrapper 0, Fn 0, [])]
     \<and> events (bus c1) ''e'' = Some []
     \<and> run (emit_fuel 2 once_env) once_second c1 = Some c2
     \<and> map task_state (tasks c2) = replicate 8 Fulfilled
     \<and> filter (\<lambda>x. fst (snd x) = Fn 0) (invoked c2) = [(ByWrapper 0, Fn 0, []), (ByWrapper 0, Fn 0, [])]"
proof -
  let ?c = "the (run (emit_fuel 2 once_env) once_first init)"
  let ?d = "the (run (emit_fuel 2 once_env) once_second ?c)"
  have 1: "run (emit_fuel 2 once_env) once_first init = Some ?c"
    by (simp add: once_first_def once_env_def eval_simps numeral_2_eq_2)
  have 2: "map task_state (tasks ?c) = replicate 7 Fulfilled"
      "filter (\<lambda>x. fst (snd x) = Fn 0) (invoked ?c) = [(ByWrapper 0, Fn 0, []), (ByWrapper 0, Fn 0, [])]"
      "events (bus ?c) ''e'' = Some []"
    by (simp_all add: once_first_def once_env_def eval_simps numeral_2_eq_2 eval_nat_numeral)
  have 3: "run (emit_fuel 2 once_env) once_second ?c = Some ?d"
    by (simp add: once_first_def once_second_def once_env_def eval_simps numeral_2_eq_2)
  have 4: "map task_state (tasks ?d) = replicate 8 Fulfilled"
      "filter (\<lambda>x. fst (snd x) = Fn 0) (invoked ?d) = [(ByWrapper 0, Fn 0, []), (ByWrapper 0, Fn 0, [])]"
    by (simp_all add: once_first_def once_second_def once_env_def eval_simps numeral_2_eq_2 eval_nat_numeral)
  from 1 2 3 4 show ?thesis by blast
qed

section \<open>emit returns, and more fuel changes nothing\<close>

lemma do_action_total: "no_emit a \<Longrightarrow> \<exists>r c'. do_action E a c = Some (r, c')"
  by (cases a) simp_all

lemma run_sync_total: "list_all no_emit_sync ss \<Longrightarrow> \<exists>r c'. run_sync E ss c = Some (r, c')"
proof (induction ss arbitrary: c)
  case Nil
  then show ?case by simp
next
  case (Cons s ss)
  show ?case
  proof (cases s)
    case (Do a)
    with Cons.prems obtain r c1 where 1: "do_action E a c = Some (r, c1)"
      using do_action_total[of a E c] by auto
    from Cons.prems Cons.IH[of c1] Do 1 show ?thesis by (cases r) auto
  next
    case (Try a)
    with Cons.prems obtain r c1 where 1: "do_action E a c = Some (r, c1)"
      using do_action_total[of a E c] by auto
    from Cons.prems Cons.IH[of c1] Try 1 show ?thesis by auto
  qed
qed

lemma run_async_total: "list_all no_emit_async ss \<Longrightarrow> \<exists>out c'. run_async E ss c = Some (out, c')"
proof (induction ss arbitrary: c)
  case Nil
  then show ?case by simp
next
  case (Cons s ss)
  show ?case
  proof (cases s)
    case (Sync x)
    show ?thesis
    proof (cases x)
      case (Do a)
      with Cons.prems Sync obtain r c1 where 1: "do_action E a c = Some (r, c1)"
        using do_action_total[of a E c] by auto
      from Cons.prems Cons.IH[of c1] Sync Do 1 show ?thesis by (cases r) auto
    next
      case (Try a)
      with Cons.prems Sync obtain r c1 where 1: "do_action E a c = Some (r, c1)"
        using do_action_total[of a E c] by auto
      from Cons.prems Cons.IH[of c1] Sync Try 1 show ?thesis by auto
    qed
  next
    case Await
    then show ?thesis by simp
  next
    case (AwaitEmit ev args)
    with Cons.prems show ?thesis by simp
  qed
qed

lemma call_handler_total:
  assumes "emit_free env"
  shows "\<exists>r c'. call_handler E env h args c = Some (r, c')"
proof (induction h arbitrary: c)
  case (Fn f)
  show ?case
  proof (cases "env f")
    case (SyncFn body)
    with assms have "list_all no_emit_sync body"
      by (auto simp: emit_free_def split: fdef.splits dest: spec[of _ f])
    from run_sync_total[OF this, of E c] SyncFn show ?thesis
      by (auto split: result.splits)
  next
    case (AsyncFn body)
    with assms have "list_all no_emit_async body"
      by (auto simp: emit_free_def split: fdef.splits dest: spec[of _ f])
    from run_async_total[OF this, of E c] AsyncFn show ?thesis by auto
  qed
next
  case (OnceWrapper i ev cb)
  from OnceWrapper.IH[of "c\<lparr>bus := unsubscribe ev (VFun (OnceWrapper i ev cb)) (bus c),
                invoked := invoked c @ [(ByWrapper i, cb, args)]\<rparr>"]
  show ?case by auto
qed

text \<open>The dispatch goes on after a handler that throws: it ends if every call of a handler ends.\<close>

lemma dispatch_total:
  assumes "\<And>h c. \<exists>r c'. call h args c = Some (r, c')"
  shows "\<exists>ps c'. dispatch call k ev args hs c = Some (ps, c')"
proof (induction hs arbitrary: c)
  case Nil
  show ?case by simp
next
  case (Cons h hs)
  from assms[of h "c\<lparr>invoked := invoked c @ [(ByEmit k, h, args)]\<rparr>"]
  obtain r c0 where 0: "call h args (c\<lparr>invoked := invoked c @ [(ByEmit k, h, args)]\<rparr>) = Some (r, c0)"
    by blast
  have "\<exists>t c1. arrow call k ev args h c = Some (t, c1)"
    by (cases r) (simp_all add: arrow_def 0 alloc_def)
  then obtain t c1 where 1: "arrow call k ev args h c = Some (t, c1)" by blast
  from Cons.IH[of c1] 1 show ?case by auto
qed

lemma emit_total:
  assumes "\<And>h c. \<exists>r c'. call h args c = Some (r, c')"
  shows "\<exists>t c'. emit call ev args c = Some (t, c')"
proof (cases "events (bus c) ev")
  case None
  then show ?thesis by (simp add: emit_def alloc_def)
next
  case (Some subs)
  from dispatch_total[of call args "emissions c" ev subs "c\<lparr>emissions := Suc (emissions c)\<rparr>"] assms
  obtain ps c1 where "dispatch call (emissions c) ev args subs (c\<lparr>emissions := Suc (emissions c)\<rparr>) = Some (ps, c1)"
    by blast
  with Some show ?thesis by (simp add: emit_def alloc_def)
qed

lemma emit_fuel_total:
  assumes "emit_free env"
  shows "\<exists>t c'. emit_fuel (Suc n) env ev args c = Some (t, c')"
  using emit_total[of "call_handler (emit_fuel n env) env" args ev c] call_handler_total[OF assms]
  by simp

subsection \<open>More fuel\<close>

lemma do_action_extends:
  "extends E E' \<Longrightarrow> do_action E a c = Some r \<Longrightarrow> do_action E' a c = Some r"
  by (cases a) (auto simp: extends_def split: option.splits)

lemma run_sync_extends:
  assumes "extends E E'"
  shows "run_sync E ss c = Some r \<Longrightarrow> run_sync E' ss c = Some r"
proof (induction ss arbitrary: c)
  case Nil
  then show ?case by simp
next
  case (Cons s ss)
  show ?case
  proof (cases s)
    case (Do a)
    with Cons.prems obtain r1 c1 where 1: "do_action E a c = Some (r1, c1)"
      by (auto split: option.splits)
    from do_action_extends[OF assms 1] have 2: "do_action E' a c = Some (r1, c1)" .
    from Cons.prems Cons.IH[of c1] Do 1 2 show ?thesis by (cases r1) auto
  next
    case (Try a)
    with Cons.prems obtain r1 c1 where 1: "do_action E a c = Some (r1, c1)"
      by (auto split: option.splits)
    from do_action_extends[OF assms 1] have 2: "do_action E' a c = Some (r1, c1)" .
    from Cons.prems Cons.IH[of c1] Try 1 2 show ?thesis by auto
  qed
qed

lemma run_async_extends:
  assumes "extends E E'"
  shows "run_async E ss c = Some r \<Longrightarrow> run_async E' ss c = Some r"
proof (induction ss arbitrary: c)
  case Nil
  then show ?case by simp
next
  case (Cons s ss)
  show ?case
  proof (cases s)
    case (Sync x)
    show ?thesis
    proof (cases x)
      case (Do a)
      with Cons.prems Sync obtain r1 c1 where 1: "do_action E a c = Some (r1, c1)"
        by (auto split: option.splits)
      from do_action_extends[OF assms 1] have 2: "do_action E' a c = Some (r1, c1)" .
      from Cons.prems Cons.IH[of c1] Sync Do 1 2 show ?thesis by (cases r1) auto
    next
      case (Try a)
      with Cons.prems Sync obtain r1 c1 where 1: "do_action E a c = Some (r1, c1)"
        by (auto split: option.splits)
      from do_action_extends[OF assms 1] have 2: "do_action E' a c = Some (r1, c1)" .
      from Cons.prems Cons.IH[of c1] Sync Try 1 2 show ?thesis by auto
    qed
  next
    case Await
    with Cons.prems show ?thesis by simp
  next
    case (AwaitEmit ev args)
    with Cons.prems assms show ?thesis by (auto simp: extends_def split: option.splits)
  qed
qed

lemma call_handler_extends:
  assumes "extends E E'"
  shows "call_handler E env h args c = Some r \<Longrightarrow> call_handler E' env h args c = Some r"
proof (induction h arbitrary: c r)
  case (Fn f)
  show ?case
  proof (cases "env f")
    case (SyncFn body)
    with Fn obtain r1 where 1: "run_sync E body c = Some r1" by (auto split: option.splits)
    from run_sync_extends[OF assms 1] Fn SyncFn 1 show ?thesis by simp
  next
    case (AsyncFn body)
    with Fn obtain r1 where 1: "run_async E body c = Some r1" by (auto split: option.splits)
    from run_async_extends[OF assms 1] Fn AsyncFn 1 show ?thesis by simp
  qed
next
  case (OnceWrapper i ev cb)
  let ?d = "c\<lparr>bus := unsubscribe ev (VFun (OnceWrapper i ev cb)) (bus c),
                invoked := invoked c @ [(ByWrapper i, cb, args)]\<rparr>"
  from OnceWrapper.prems obtain r1 where 1: "call_handler E env cb args ?d = Some r1"
    by (auto split: option.splits)
  from OnceWrapper.IH[OF 1] OnceWrapper.prems 1 show ?case by simp
qed

lemma dispatch_extends:
  assumes "\<And>h c r. call h args c = Some r \<Longrightarrow> call' h args c = Some r"
  shows "dispatch call k ev args hs c = Some r \<Longrightarrow> dispatch call' k ev args hs c = Some r"
proof (induction hs arbitrary: c r)
  case Nil
  then show ?case by simp
next
  case (Cons h hs)
  from Cons.prems obtain t c1 ps c2 where 1: "arrow call k ev args h c = Some (t, c1)"
    and 2: "dispatch call k ev args hs c1 = Some (ps, c2)" and r: "r = (t # ps, c2)"
    by (auto split: option.splits)
  from 1 obtain x where x: "call h args (c\<lparr>invoked := invoked c @ [(ByEmit k, h, args)]\<rparr>) = Some x"
    by (auto simp: arrow_def split: option.splits)
  from assms[OF x] 1 x have a': "arrow call' k ev args h c = Some (t, c1)"
    by (simp add: arrow_def)
  from Cons.IH[OF 2] a' r show ?case by simp
qed

lemma emit_extends:
  assumes "\<And>h c r. call h args c = Some r \<Longrightarrow> call' h args c = Some r"
  shows "emit call ev args c = Some r \<Longrightarrow> emit call' ev args c = Some r"
proof (cases "events (bus c) ev")
  case None
  then show "emit call ev args c = Some r \<Longrightarrow> emit call' ev args c = Some r"
    by (simp add: emit_def)
next
  case (Some subs)
  assume e: "emit call ev args c = Some r"
  with Some obtain x where 1: "dispatch call (emissions c) ev args subs (c\<lparr>emissions := Suc (emissions c)\<rparr>) = Some x"
    by (auto simp: emit_def split: option.splits)
  from dispatch_extends[of call args call', OF assms 1] e Some 1
  show "emit call' ev args c = Some r" by (simp add: emit_def)
qed

lemma emit_fuel_Suc: "extends (emit_fuel n env) (emit_fuel (Suc n) env)"
proof (induction n)
  case 0
  show ?case by (simp add: extends_def)
next
  case (Suc n)
  show ?case
    unfolding extends_def
  proof (intro allI impI)
    fix ev args c r
    assume "emit_fuel (Suc n) env ev args c = Some r"
    then have "emit (call_handler (emit_fuel n env) env) ev args c = Some r" by simp
    then have "emit (call_handler (emit_fuel (Suc n) env) env) ev args c = Some r"
      by (rule emit_extends[rotated]) (rule call_handler_extends[OF Suc])
    then show "emit_fuel (Suc (Suc n)) env ev args c = Some r" by simp
  qed
qed

lemma emit_fuel_mono:
  "emit_fuel n env ev args c = Some r \<Longrightarrow> emit_fuel (n + k) env ev args c = Some r"
proof (induction k)
  case 0
  then show ?case by simp
next
  case (Suc k)
  then have "emit_fuel (n + k) env ev args c = Some r" by simp
  with emit_fuel_Suc[of "n + k" env] have "emit_fuel (Suc (n + k)) env ev args c = Some r"
    unfolding extends_def by blast
  then show ?case by simp
qed


section \<open>A once-subscription that is alone on its event\<close>

text \<open>
  The wrapper built by \<open>once\<close> removes itself from the subscriber set when it is called.
  The lemmas of this section follow one wrapper identity through every run of a program that
  holds no reference to a wrapper, called \<open>plain\<close>, whose handlers and arguments are
  ordinary functions and values: once the wrapper has left the subscriber sets, which is \<open>spent\<close>, no
  computation of the bus calls it again, which is \<open>wgood\<close>.
\<close>


subsection \<open>A wrapper of once that has removed itself\<close>

lemma handler_ok_mono: "handler_ok I n h \<Longrightarrow> n \<le> n' \<Longrightarrow> handler_ok I n' h"
  by (auto simp: handler_ok_def)

lemma subs_ok_mono: "subs_ok I n b \<Longrightarrow> n \<le> n' \<Longrightarrow> subs_ok I n' b"
  unfolding subs_ok_def using handler_ok_mono by blast

lemma subs_ok_setup_loop: "subs_ok I n b \<Longrightarrow> subs_ok I n (snd (setup_loop xs b))"
proof (induction xs arbitrary: b)
  case Nil
  then show ?case by simp
next
  case (Cons x xs)
  show ?case
  proof (cases x)
    case (VStr name)
    have "subs_ok I n (b\<lparr>registeredEvents := insert name (registeredEvents b),
               events := (if events b name = None then (events b)(name \<mapsto> []) else events b)\<rparr>)"
      using Cons.prems by (auto simp: subs_ok_def split: if_splits)
    then show ?thesis using VStr Cons.IH by simp
  qed (use Cons.prems in simp_all)
qed

lemma subs_ok_setup: "subs_ok I n b \<Longrightarrow> subs_ok I n (snd (setup_events v b))"
  by (cases v) (simp_all add: setup_events_def subs_ok_setup_loop)

lemma subs_ok_subscribe:
  "subs_ok I n b \<Longrightarrow> handler_ok I n h \<Longrightarrow> subs_ok I n (snd (subscribe e (VFun h) b))"
  by (auto simp: subscribe_def subs_ok_def set_add_def split: option.splits if_splits)

lemma subs_ok_subscribe_plain:
  "subs_ok I n b \<Longrightarrow> plain cb \<Longrightarrow> subs_ok I n (snd (subscribe e cb b))"
proof (cases cb)
  case (VFun h)
  assume a: "subs_ok I n b" "plain cb"
  with VFun have "handler_ok I n h" by (cases h) (auto simp: plain_def handler_ok_def)
  with a VFun show ?thesis by (simp add: subs_ok_subscribe)
qed (simp_all add: subscribe_def)

lemma subs_ok_once:
  assumes "subs_ok I n b" "plain cb" "\<forall>i \<in> I. i < n"
  shows "subs_ok I (Suc n) (snd (once e cb n b))"
proof (cases cb)
  case (VFun h)
  with assms(2) obtain f where h: "h = Fn f" by (cases h) (auto simp: plain_def)
  have 1: "subs_ok I (Suc n) b" using assms(1) by (rule subs_ok_mono) simp
  have 2: "handler_ok I (Suc n) (OnceWrapper n e (Fn f))"
    using assms(3) by (auto simp: handler_ok_def)
  from subs_ok_subscribe[OF 1 2, of e] 1 VFun h show ?thesis by (simp add: once_def)
next
  case VUndefined
  with assms(1) show ?thesis by (auto simp: once_def intro: subs_ok_mono)
next
  case VNull
  with assms(1) show ?thesis by (auto simp: once_def intro: subs_ok_mono)
next
  case (VBool x)
  with assms(1) show ?thesis by (auto simp: once_def intro: subs_ok_mono)
next
  case (VNum x)
  with assms(1) show ?thesis by (auto simp: once_def intro: subs_ok_mono)
next
  case (VStr x)
  with assms(1) show ?thesis by (auto simp: once_def intro: subs_ok_mono)
next
  case (VArr x)
  with assms(1) show ?thesis by (auto simp: once_def intro: subs_ok_mono)
qed

lemma subs_ok_unsubscribe: "subs_ok I n b \<Longrightarrow> subs_ok I n (unsubscribe e cb b)"
  by (cases cb) (auto simp: unsubscribe_def subs_ok_def set_delete_def split: option.splits if_splits)

lemma subs_ok_clear: "subs_ok I n b \<Longrightarrow> subs_ok I n (clear e b)"
  by (auto simp: clear_def subs_ok_def split: option.splits if_splits)

lemma subs_ok_reset: "subs_ok I n (reset b)"
  by (simp add: reset_def subs_ok_def)

lemma wgood_refl: "wgood I c c"
  by (simp add: wgood_def)

lemma wgood_trans: "wgood I a b \<Longrightarrow> wgood I b c \<Longrightarrow> wgood I a c"
  unfolding wgood_def by simp

lemma wlog_ok_mono: "wlog_ok n xs \<Longrightarrow> n \<le> n' \<Longrightarrow> wlog_ok n' xs"
  by (fastforce simp: wlog_ok_def)

lemma wgood_bus:
  "(subs_ok I (next_wrapper c) (bus c) \<Longrightarrow> subs_ok I (next_wrapper c) b') \<Longrightarrow> wgood I c (c\<lparr>bus := b'\<rparr>)"
  by (simp add: wgood_def spent_def)

lemma wgood_once:
  assumes "plain cb"
  shows "wgood I c (c\<lparr>bus := snd (once e cb (next_wrapper c) (bus c)), next_wrapper := Suc (next_wrapper c)\<rparr>)"
proof -
  have "spent I c \<longrightarrow> spent I (c\<lparr>bus := snd (once e cb (next_wrapper c) (bus c)), next_wrapper := Suc (next_wrapper c)\<rparr>)"
    using assms subs_ok_once[of I "next_wrapper c" "bus c" cb e] wlog_ok_mono[of "next_wrapper c" "invoked c" "Suc (next_wrapper c)"]
    by (auto simp: spent_def)
  then show ?thesis by (simp add: wgood_def)
qed

lemma conts_plain_append: "conts_plain ts \<Longrightarrow> (\<forall>w rest. task_cont x = CBody w rest \<longrightarrow> list_all plain_async rest) \<Longrightarrow> conts_plain (ts @ [x])"
  by (auto simp: conts_plain_def)

lemma wgood_alloc:
  "(\<forall>w rest. task_cont x = CBody w rest \<longrightarrow> list_all plain_async rest) \<Longrightarrow> wgood I c (snd (alloc x c))"
  by (auto simp: wgood_def spent_def alloc_def conts_plain_append)

lemma do_action_wgood:
  assumes E: "emitter_wgood I E" and p: "plain_action a"
    and d: "do_action E a c = Some (r, c')"
  shows "wgood I c c'"
proof (cases a)
  case (AEmit ev args)
  with d E show ?thesis by (auto simp: emitter_wgood_def split: option.splits)
next
  case (AOnce ev cb)
  with d p wgood_once[of cb I c ev] show ?thesis by auto
next
  case (ASubscribe ev cb)
  with d p show ?thesis by (auto intro!: wgood_bus subs_ok_subscribe_plain)
qed (use d in \<open>auto simp: wgood_refl intro!: wgood_bus subs_ok_setup subs_ok_unsubscribe subs_ok_clear subs_ok_reset\<close>)

lemma run_sync_wgood:
  assumes E: "emitter_wgood I E"
  shows "list_all plain_sync ss \<Longrightarrow> run_sync E ss c = Some (r, c') \<Longrightarrow> wgood I c c'"
proof (induction ss arbitrary: c)
  case Nil
  then show ?case by (simp add: wgood_refl)
next
  case (Cons s ss)
  from Cons.prems(1) have rest: "list_all plain_sync ss" by simp
  show ?case
  proof (cases s)
    case (Do a)
    with Cons.prems obtain r1 c1 where 1: "do_action E a c = Some (r1, c1)" and pa: "plain_action a"
      by (auto split: option.splits)
    note g = do_action_wgood[OF E pa 1]
    show ?thesis
    proof (cases r1)
      case (Returned u)
      with Cons.prems Do 1 have "run_sync E ss c1 = Some (r, c')" by simp
      from wgood_trans[OF g Cons.IH[OF rest this]] show ?thesis .
    next
      case (Thrown e)
      with Cons.prems Do 1 have "c' = c1" by simp
      with g show ?thesis by simp
    qed
  next
    case (Try a)
    with Cons.prems obtain r1 c1 where 1: "do_action E a c = Some (r1, c1)" and pa: "plain_action a"
      and 2: "run_sync E ss c1 = Some (r, c')"
      by (auto split: option.splits)
    from wgood_trans[OF do_action_wgood[OF E pa 1] Cons.IH[OF rest 2]] show ?thesis .
  qed
qed

lemma run_async_wgood:
  assumes E: "emitter_wgood I E"
  shows "list_all plain_async ss \<Longrightarrow> run_async E ss c = Some (out, c') \<Longrightarrow>
     wgood I c c' \<and> (\<forall>w rest. out = Suspend w rest \<longrightarrow> list_all plain_async rest)"
proof (induction ss arbitrary: c)
  case Nil
  then show ?case by (auto simp: wgood_refl)
next
  case (Cons s ss)
  from Cons.prems(1) have rest: "list_all plain_async ss" by simp
  show ?case
  proof (cases s)
    case (Sync x)
    show ?thesis
    proof (cases x)
      case (Do a)
      with Cons.prems Sync obtain r1 c1 where 1: "do_action E a c = Some (r1, c1)" and pa: "plain_action a"
        by (auto split: option.splits)
      note g = do_action_wgood[OF E pa 1]
      show ?thesis
      proof (cases r1)
        case (Returned u)
        with Cons.prems Sync Do 1 have "run_async E ss c1 = Some (out, c')" by simp
        from Cons.IH[OF rest this] g show ?thesis by (auto intro: wgood_trans)
      next
        case (Thrown e)
        with Cons.prems Sync Do 1 have "c' = c1" "out = Failed e" by simp_all
        with g show ?thesis by simp
      qed
    next
      case (Try a)
      with Cons.prems Sync obtain r1 c1 where 1: "do_action E a c = Some (r1, c1)" and pa: "plain_action a"
        and 2: "run_async E ss c1 = Some (out, c')"
        by (auto split: option.splits)
      from Cons.IH[OF rest 2] do_action_wgood[OF E pa 1] show ?thesis by (auto intro: wgood_trans)
    qed
  next
    case Await
    with Cons.prems rest show ?thesis by (auto simp: wgood_refl)
  next
    case (AwaitEmit ev args)
    with Cons.prems rest E show ?thesis by (auto simp: emitter_wgood_def split: option.splits)
  qed
qed


lemma wgood_wrapper_enter:
  assumes "handler_ok I (next_wrapper c) (OnceWrapper j e cb)"
  shows "wgood I c (c\<lparr>bus := unsubscribe e v (bus c), invoked := invoked c @ [(ByWrapper j, cb, a)]\<rparr>)"
proof -
  from assms have j: "j < next_wrapper c" "j \<notin> I" by (auto simp: handler_ok_def)
  then have "\<forall>i \<in> I. by_wrapper i (invoked c @ [(ByWrapper j, cb, a)]) = by_wrapper i (invoked c)"
    by (auto simp: by_wrapper_def)
  moreover have "wlog_ok (next_wrapper c) (invoked c) \<longrightarrow> wlog_ok (next_wrapper c) (invoked c @ [(ByWrapper j, cb, a)])"
    using j by (auto simp: wlog_ok_def)
  ultimately show ?thesis
    by (simp add: wgood_def spent_def subs_ok_unsubscribe)
qed

lemma wgood_arrow_enter: "wgood I c (c\<lparr>invoked := invoked c @ [(ByEmit k, h, a)]\<rparr>)"
  by (auto simp: wgood_def spent_def wlog_ok_def by_wrapper_def)

lemma wgood_emit_begin: "wgood I c (c\<lparr>emissions := n\<rparr>)"
  by (simp add: wgood_def spent_def)

lemma wgood_console: "wgood I c (c\<lparr>console := x\<rparr>)"
  by (simp add: wgood_def spent_def)

lemma plain_envD:
  assumes "plain_env env"
  shows "env f = SyncFn body \<Longrightarrow> list_all plain_sync body"
    and "env f = AsyncFn abody \<Longrightarrow> list_all plain_async abody"
  using assms by (auto simp: plain_env_def split: fdef.splits dest: spec[of _ f])

lemma call_handler_wgood':
  assumes E: "emitter_wgood I E" and G: "emitter_good E" and env: "plain_env env"
  shows "handler_ok I (next_wrapper c) h \<Longrightarrow> call_handler E env h args c = Some (r, c') \<Longrightarrow> wgood I c c'"
proof (induction h arbitrary: c r c')
  case (Fn f)
  show ?case
  proof (cases "env f")
    case (SyncFn body)
    with Fn obtain r1 where "run_sync E body c = Some (r1, c')"
      by (auto split: option.splits result.splits)
    from run_sync_wgood[OF E plain_envD(1)[OF env SyncFn] this] show ?thesis .
  next
    case (AsyncFn body)
    with Fn obtain out c1 where 1: "run_async E body c = Some (out, c1)"
      and 2: "c' = snd (alloc (body_task out) c1)"
      by (auto split: option.splits)
    from run_async_wgood[OF E plain_envD(2)[OF env AsyncFn] 1]
    have g: "wgood I c c1" and p: "\<forall>w rest. out = Suspend w rest \<longrightarrow> list_all plain_async rest" by simp_all
    have "wgood I c1 c'" unfolding 2
      by (rule wgood_alloc) (use p in \<open>auto simp: body_task_def split: outcome.splits\<close>)
    with g show ?thesis by (rule wgood_trans)
  qed
next
  case (OnceWrapper j ev cb)
  let ?d = "c\<lparr>bus := unsubscribe ev (VFun (OnceWrapper j ev cb)) (bus c),
                invoked := invoked c @ [(ByWrapper j, cb, args)]\<rparr>"
  from OnceWrapper.prems obtain r1 c1 where 1: "call_handler E env cb args ?d = Some (r1, c1)"
    and 2: "c' = snd (alloc (wrapper_task r1) c1)"
    by (auto split: option.splits)
  have a: "wgood I c ?d" using OnceWrapper.prems(1) by (rule wgood_wrapper_enter)
  have ok: "handler_ok I (next_wrapper ?d) cb"
    using OnceWrapper.prems(1) by (simp add: handler_ok_def)
  have b: "wgood I c1 c'" unfolding 2 by (rule wgood_alloc) (simp add: wrapper_task_def)
  from wgood_trans[OF wgood_trans[OF a OnceWrapper.IH[OF ok 1]] b] show ?case .
qed

lemma call_handler_wgood:
  "emitter_wgood I E \<Longrightarrow> emitter_good E \<Longrightarrow> plain_env env \<Longrightarrow> invoker_wgood I (call_handler E env)"
  unfolding invoker_wgood_def using call_handler_wgood' by blast

lemma arrow_wgood:
  assumes W: "invoker_wgood I call"
    and ok: "handler_ok I (next_wrapper c) h"
    and a: "arrow call k ev args h c = Some (t, c')"
  shows "wgood I c c'"
proof -
  let ?d = "c\<lparr>invoked := invoked c @ [(ByEmit k, h, args)]\<rparr>"
  from a obtain r c1 where 1: "call h args ?d = Some (r, c1)"
    by (auto simp: arrow_def split: option.splits)
  have g0: "wgood I c ?d" by (rule wgood_arrow_enter)
  from W ok 1 have g1: "wgood I ?d c1" by (auto simp: invoker_wgood_def)
  show ?thesis
  proof (cases r)
    case (Thrown e)
    with a 1 have c': "c' = snd (alloc (Task (CArrow ev (Thrown e)) Fulfilled) (c1\<lparr>console := console c1 @ [(ev, e)]\<rparr>))"
      by (auto simp: arrow_def)
    have "wgood I c1 (c1\<lparr>console := console c1 @ [(ev, e)]\<rparr>)" by (rule wgood_console)
    moreover have "wgood I (c1\<lparr>console := console c1 @ [(ev, e)]\<rparr>) c'"
      unfolding c' by (rule wgood_alloc) simp
    ultimately show ?thesis using g0 g1 by (meson wgood_trans)
  next
    case (Returned v)
    with a 1 have c': "c' = snd (alloc (Task (CArrow ev (Returned v)) Pending) c1)"
      by (auto simp: arrow_def)
    have "wgood I c1 c'" unfolding c' by (rule wgood_alloc) simp
    with g0 g1 show ?thesis by (meson wgood_trans)
  qed
qed

lemma dispatch_wgood:
  assumes W: "invoker_wgood I call" and G: "invoker_good call"
  shows "k < emissions c \<Longrightarrow> \<forall>h \<in> set hs. handler_ok I (next_wrapper c) h \<Longrightarrow>
     dispatch call k ev args hs c = Some (ps, c') \<Longrightarrow> wgood I c c'"
proof (induction hs arbitrary: c ps)
  case Nil
  then show ?case by (simp add: wgood_refl)
next
  case (Cons h hs)
  from Cons.prems(3) obtain t c1 ps' where 1: "arrow call k ev args h c = Some (t, c1)"
    and 2: "dispatch call k ev args hs c1 = Some (ps', c')"
    by (auto split: option.splits)
  from Cons.prems(2) have okh: "handler_ok I (next_wrapper c) h" by simp
  note g1 = arrow_wgood[OF W okh 1]
  from arrow_good[OF G Cons.prems(1) 1] have s: "sgood {k} c c1" by simp
  then have nw: "next_wrapper c \<le> next_wrapper c1" and k1: "k < emissions c1"
    using Cons.prems(1) by (simp_all add: sgood_def)
  from Cons.prems(2) nw have "\<forall>h \<in> set hs. handler_ok I (next_wrapper c1) h"
    by (auto intro: handler_ok_mono)
  from Cons.IH[OF k1 this 2] g1 show ?case by (rule wgood_trans[rotated])
qed

lemma emit_wgood:
  assumes W: "invoker_wgood I call" and G: "invoker_good call"
    and e: "emit call ev args c = Some (t, c')"
  shows "wgood I c c'"
proof (cases "events (bus c) ev")
  case None
  with e have c': "c' = snd (alloc (Task (CEmit []) Fulfilled) c)"
    by (auto simp: emit_def)
  show ?thesis unfolding c' by (rule wgood_alloc) simp
next
  case (Some subs)
  let ?k = "emissions c"
  let ?d = "c\<lparr>emissions := Suc ?k\<rparr>"
  from e Some obtain ps c1 where 1: "dispatch call ?k ev args subs ?d = Some (ps, c1)"
    and c': "c' = snd (alloc (Task (CEmit ps) Pending) c1)"
    by (auto simp: emit_def split: option.splits)
  have b: "wgood I c1 c'" unfolding c' by (rule wgood_alloc) simp
  show ?thesis
  proof (cases "spent I c")
    case False
    then show ?thesis by (simp add: wgood_def)
  next
    case True
    with Some have ok: "\<forall>h \<in> set subs. handler_ok I (next_wrapper ?d) h"
      by (auto simp: spent_def subs_ok_def)
    have k: "?k < emissions ?d" by simp
    from dispatch_wgood[OF W G k ok 1] have "wgood I ?d c1" .
    with wgood_emit_begin[of I c "Suc ?k"] b show ?thesis by (meson wgood_trans)
  qed
qed

lemma emit_fuel_wgood:
  assumes "plain_env env"
  shows "emitter_wgood I (emit_fuel n env)"
proof (induction n)
  case 0
  show ?case by (simp add: emitter_wgood_def)
next
  case (Suc n)
  have W: "invoker_wgood I (call_handler (emit_fuel n env) env)"
    using Suc emit_fuel_good assms by (rule call_handler_wgood)
  have G: "invoker_good (call_handler (emit_fuel n env) env)"
    by (rule call_handler_good[OF emit_fuel_good])
  from emit_wgood[OF W G] show ?case
    unfolding emitter_wgood_def by auto
qed


lemma conts_plain_update:
  "conts_plain ts \<Longrightarrow> (\<forall>w rest. task_cont x = CBody w rest \<longrightarrow> list_all plain_async rest) \<Longrightarrow>
     conts_plain (ts[t := x])"
  unfolding conts_plain_def using set_update_subset_insert[of ts t x] by blast

lemma wgood_set_state:
  assumes "t < length (tasks c)"
  shows "wgood I c (set_state t st c)"
proof -
  have "conts_plain (tasks c) \<longrightarrow> conts_plain ((tasks c)[t := Task (task_cont (tasks c ! t)) st])"
  proof
    assume p: "conts_plain (tasks c)"
    from assms have "tasks c ! t \<in> set (tasks c)" by simp
    with p have "\<forall>w rest. task_cont (tasks c ! t) = CBody w rest \<longrightarrow> list_all plain_async rest"
      by (simp add: conts_plain_def)
    with p show "conts_plain ((tasks c)[t := Task (task_cont (tasks c ! t)) st])"
      by (intro conts_plain_update) simp_all
  qed
  then show ?thesis by (simp add: wgood_def spent_def set_state_def)
qed

lemma resume_wgood:
  assumes E: "emitter_wgood I E" and r: "resume E t c = Some c'"
  shows "wgood I c c'"
proof (cases "t < length (tasks c) \<and> task_state (tasks c ! t) = Pending")
  case False
  with r show ?thesis by (auto simp: resume_def wgood_refl)
next
  case True
  then have t: "t < length (tasks c)" and p: "task_state (tasks c ! t) = Pending" by simp_all
  note s = wgood_set_state[OF t, of I]
  show ?thesis
  proof (cases "task_cont (tasks c ! t)")
    case (CArrow ev x)
    have "wgood I c (set_state t Fulfilled (c\<lparr>console := console c @ [(ev, e)]\<rparr>))" for e
      using wgood_console[of I c "console c @ [(ev, e)]"]
            wgood_set_state[of t "c\<lparr>console := console c @ [(ev, e)]\<rparr>" I Fulfilled] t
      by (auto intro: wgood_trans)
    with t p CArrow r s show ?thesis
      by (auto simp: resume_def wgood_refl split: pstate.splits)
  next
    case (CWrapper x)
    with t p r s show ?thesis
      by (auto simp: resume_def wgood_refl split: pstate.splits)
  next
    case (CEmit ps)
    with t p r s show ?thesis
      by (auto simp: resume_def wgood_refl split: pstate.splits)
  next
    case (CBody w rest)
    show ?thesis
    proof (cases "settled (tasks c) (Returned w) = Fulfilled")
      case False
      with t p CBody r s show ?thesis
        by (auto simp: resume_def wgood_refl split: pstate.splits)
    next
      case True
      with t p CBody r obtain out c1 where 1: "run_async E rest c = Some (out, c1)"
        and c': "c' = c1\<lparr>tasks := (tasks c1)[t := body_task out]\<rparr>"
        by (auto simp: resume_def split: option.splits)
      show ?thesis
      proof (cases "spent I c")
        case False
        then show ?thesis by (simp add: wgood_def)
      next
        case sp: True
        from t have "tasks c ! t \<in> set (tasks c)" by simp
        with sp CBody have pr: "list_all plain_async rest" by (auto simp: spent_def conts_plain_def)
        from run_async_wgood[OF E pr 1]
        have g: "wgood I c c1" and po: "\<forall>w rest. out = Suspend w rest \<longrightarrow> list_all plain_async rest"
          by simp_all
        have "conts_plain (tasks c1) \<longrightarrow> conts_plain ((tasks c1)[t := body_task out])"
          using po by (auto intro!: conts_plain_update simp: body_task_def split: outcome.splits)
        then have "wgood I c1 c'" by (simp add: wgood_def spent_def c')
        with g show ?thesis by (rule wgood_trans)
      qed
    qed
  qed
qed

lemma run_wgood:
  assumes E: "emitter_wgood I E"
  shows "list_all plain_step steps \<Longrightarrow> run E steps c = Some c' \<Longrightarrow> wgood I c c'"
proof (induction steps arbitrary: c)
  case Nil
  then show ?case by (simp add: wgood_refl)
next
  case (Cons s steps)
  from Cons.prems(1) have rest: "list_all plain_step steps" by simp
  show ?case
  proof (cases s)
    case (Call a)
    with Cons.prems obtain r c1 where 1: "do_action E a c = Some (r, c1)" and pa: "plain_action a"
      and 2: "run E steps c1 = Some c'"
      by (auto split: option.splits)
    from do_action_wgood[OF E pa 1] Cons.IH[OF rest 2] show ?thesis by (rule wgood_trans)
  next
    case (Tick t)
    with Cons.prems obtain c1 where 1: "resume E t c = Some c1"
      and 2: "run E steps c1 = Some c'"
      by (auto split: option.splits)
    from resume_wgood[OF E 1] Cons.IH[OF rest 2] show ?thesis by (rule wgood_trans)
  qed
qed

lemma spent_init: "spent {} init"
  by (simp add: spent_def init_def new_bus_def subs_ok_def wlog_ok_def conts_plain_def)

lemma reach_spent:
  assumes "plain_env env" "list_all plain_step steps" "run (emit_fuel n env) steps init = Some c"
  shows "spent {} c"
  using run_wgood[OF emit_fuel_wgood[OF assms(1)] assms(2,3)] spent_init by (simp add: wgood_def)


lemma by_wrapper_fresh: "wlog_ok n xs \<Longrightarrow> by_wrapper n xs = []"
  by (auto simp: wlog_ok_def by_wrapper_def filter_empty_conv)

text \<open>
  With no other subscriber on the event and no reference to the wrapper in the program,
  a handler subscribed with \<open>once\<close> is called exactly one time: the next emission of the event
  calls the wrapper, the wrapper calls the handler with the arguments of that emission, and
  whatever the program does afterwards calls neither again; the wrapper is in no subscriber
  set any more.
\<close>

theorem once_alone_invoked_once:
  assumes env: "plain_env env" and pb: "list_all plain_step before"
    and reach: "run (emit_fuel n0 env) before init = Some c"
    and none: "events (bus c) e = Some []"
    and e: "emit_fuel n env e args
              (c\<lparr>bus := snd (once e (VFun (Fn f)) (next_wrapper c) (bus c)),
                 next_wrapper := Suc (next_wrapper c)\<rparr>) = Some (t, c1)"
    and pl: "list_all plain_step later"
    and later: "run (emit_fuel m env) later c1 = Some c2"
  shows "fst (once e (VFun (Fn f)) (next_wrapper c) (bus c))
           = Returned (Token e (OnceWrapper (next_wrapper c) e (Fn f)))
     \<and> by_emit (emissions c) (invoked c2)
           = [(ByEmit (emissions c), OnceWrapper (next_wrapper c) e (Fn f), args)]
     \<and> by_wrapper (next_wrapper c) (invoked c1) = [(ByWrapper (next_wrapper c), Fn f, args)]
     \<and> by_wrapper (next_wrapper c) (invoked c2) = [(ByWrapper (next_wrapper c), Fn f, args)]
     \<and> (\<forall>e' subs. events (bus c2) e' = Some subs \<longrightarrow> OnceWrapper (next_wrapper c) e (Fn f) \<notin> set subs)"
proof -
  let ?i = "next_wrapper c"
  let ?w = "OnceWrapper ?i e (Fn f)"
  let ?c' = "c\<lparr>bus := snd (once e (VFun (Fn f)) ?i (bus c)), next_wrapper := Suc ?i\<rparr>"
  note i = reach_inv[OF reach]
  note sp = reach_spent[OF env pb reach]
  from i none have reg: "e \<in> registeredEvents (bus c)" by (auto simp: inv_def bus_ok_def)
  have tok: "fst (once e (VFun (Fn f)) ?i (bus c)) = Returned (Token e ?w)"
    using reg none by (simp add: once_def subscribe_def)
  have ev': "events (bus ?c') = (events (bus c))(e \<mapsto> [?w])"
    using reg none by (simp add: once_def subscribe_def set_add_def)
  have "sgood {} c ?c'" by (rule sgood_bus_counter) (rule bus_ok_once)
  with i have i': "inv ?c'" by (simp add: sgood_def)
  have em: "emissions ?c' = emissions c" by simp
  from e obtain n' where n: "n = Suc n'" by (cases n) auto
  let ?E = "emit_fuel n' env"
  let ?k = "emissions c"
  let ?d0 = "?c'\<lparr>emissions := Suc ?k, invoked := invoked c @ [(ByEmit ?k, ?w, args)]\<rparr>"
  let ?d1 = "?d0\<lparr>bus := unsubscribe e (VFun ?w) (bus ?d0),
                  invoked := invoked ?d0 @ [(ByWrapper ?i, Fn f, args)]\<rparr>"
  from e n ev' obtain r1 c3 where call: "call_handler ?E env (Fn f) args ?d1 = Some (r1, c3)"
    by (auto simp: emit_def arrow_def split: option.splits)
  let ?c4 = "snd (alloc (wrapper_task r1) c3)"
  let ?c5 = "snd (alloc (Task (CArrow e (Returned (Promise (length (tasks c3))))) Pending) ?c4)"
  from e n ev' call have c1: "c1 = snd (alloc (Task (CEmit [length (tasks ?c4)]) Pending) ?c5)"
    by (simp add: emit_def arrow_def alloc_def)
  have sub1: "subs_ok {?i} (Suc ?i) (bus ?d1)"
    unfolding subs_ok_def
  proof (intro allI impI ballI)
    fix e' subs h assume a: "events (bus ?d1) e' = Some subs" and h: "h \<in> set subs"
    show "handler_ok {?i} (Suc ?i) h"
    proof (cases "e' = e")
      case True
      with a ev' have "subs = []" by (simp add: unsubscribe_def set_delete_def)
      with h show ?thesis by simp
    next
      case False
      with a ev' have "events (bus c) e' = Some subs" by (simp add: unsubscribe_def)
      with sp h have "handler_ok {} ?i h" by (auto simp: spent_def subs_ok_def)
      then show ?thesis by (auto simp: handler_ok_def)
    qed
  qed
  from sp have wl: "wlog_ok ?i (invoked c)" by (simp add: spent_def)
  then have wl1: "wlog_ok (Suc ?i) (invoked ?d1)" by (auto simp: wlog_ok_def)
  from sp have "conts_plain (tasks ?d1)" by (simp add: spent_def)
  with sub1 wl1 have sp1: "spent {?i} ?d1" by (simp add: spent_def)
  have bw1: "by_wrapper ?i (invoked ?d1) = [(ByWrapper ?i, Fn f, args)]"
    using by_wrapper_fresh[OF wl] by (simp add: by_wrapper_def)
  have W: "emitter_wgood {?i} ?E" by (rule emit_fuel_wgood[OF env])
  have "handler_ok {?i} (next_wrapper ?d1) (Fn f)" by (simp add: handler_ok_def)
  from call_handler_wgood'[OF W emit_fuel_good env this call] have g3: "wgood {?i} ?d1 c3" .
  have "wgood {?i} c3 ?c4" by (rule wgood_alloc) (simp add: wrapper_task_def)
  moreover have "wgood {?i} ?c4 ?c5" by (rule wgood_alloc) simp
  moreover have "wgood {?i} ?c5 c1" unfolding c1 by (rule wgood_alloc) simp
  ultimately have "wgood {?i} ?d1 c1" using g3 by (meson wgood_trans)
  with sp1 bw1 have spc1: "spent {?i} c1"
    and bwc1: "by_wrapper ?i (invoked c1) = [(ByWrapper ?i, Fn f, args)]"
    by (simp_all add: wgood_def)
  from run_wgood[OF emit_fuel_wgood[OF env] pl later, of "{?i}"] spc1 bwc1
  have spc2: "spent {?i} c2"
    and bwc2: "by_wrapper ?i (invoked c2) = [(ByWrapper ?i, Fn f, args)]"
    by (simp_all add: wgood_def)
  have gone: "\<forall>e' subs. events (bus c2) e' = Some subs \<longrightarrow> ?w \<notin> set subs"
  proof (intro allI impI notI)
    fix e' subs assume "events (bus c2) e' = Some subs" "?w \<in> set subs"
    with spc2 have "handler_ok {?i} (next_wrapper c2) ?w" by (auto simp: spent_def subs_ok_def)
    then show False by (simp add: handler_ok_def)
  qed
  have snap: "events (bus ?c') e = Some [?w]" using ev' by simp
  from emit_snapshot(2)[OF i' snap e later] em
  have log: "by_emit ?k (invoked c2) = [(ByEmit ?k, ?w, args)]" by simp
  from tok log bwc1 bwc2 gone show ?thesis by simp
qed



theorem once_alone_invoked_once_witness:
  "\<exists>c t c1 c2.
     run (emit_fuel 2 solo_env) [Call (ASetup (VArr [VStr ''e'']))] init = Some c
     \<and> events (bus c) ''e'' = Some []
     \<and> emit_fuel 2 solo_env ''e'' [VNum 7]
          (c\<lparr>bus := snd (once ''e'' (VFun (Fn 0)) (next_wrapper c) (bus c)),
             next_wrapper := Suc (next_wrapper c)\<rparr>) = Some (t, c1)
     \<and> run (emit_fuel 2 solo_env) solo_later c1 = Some c2
     \<and> map task_state (tasks c2)
          = [Fulfilled, Rejected (UserError (VStr ''x'')), Fulfilled, Fulfilled, Fulfilled]
     \<and> console c2 = [(''e'', UserError (VStr ''x''))]
     \<and> emissions c2 = 3
     \<and> by_wrapper 0 (invoked c2) = [(ByWrapper 0, Fn 0, [VNum 7])]"
proof -
  let ?c = "the (run (emit_fuel 2 solo_env) [Call (ASetup (VArr [VStr ''e'']))] init)"
  let ?d = "?c\<lparr>bus := snd (once ''e'' (VFun (Fn 0)) (next_wrapper ?c) (bus ?c)),
             next_wrapper := Suc (next_wrapper ?c)\<rparr>"
  let ?r = "the (emit_fuel 2 solo_env ''e'' [VNum 7] ?d)"
  let ?f = "the (run (emit_fuel 2 solo_env) solo_later (snd ?r))"
  have env: "plain_env solo_env"
    by (simp add: plain_env_def solo_env_def)
  have pb: "list_all plain_step [Call (ASetup (VArr [VStr ''e'']))]" by simp
  have pl: "list_all plain_step solo_later" by (simp add: solo_later_def)
  have 1: "run (emit_fuel 2 solo_env) [Call (ASetup (VArr [VStr ''e'']))] init = Some ?c"
    by (simp add: solo_env_def eval_simps numeral_2_eq_2)
  have 2: "events (bus ?c) ''e'' = Some []" and 0: "next_wrapper ?c = 0"
    by (simp_all add: solo_env_def eval_simps numeral_2_eq_2)
  have 3: "emit_fuel 2 solo_env ''e'' [VNum 7] ?d = Some (fst ?r, snd ?r)"
    by (simp add: solo_env_def eval_simps numeral_2_eq_2)
  have 4: "run (emit_fuel 2 solo_env) solo_later (snd ?r) = Some ?f"
    by (simp add: solo_env_def solo_later_def eval_simps numeral_2_eq_2)
  have 5: "map task_state (tasks ?f)
          = [Fulfilled, Rejected (UserError (VStr ''x'')), Fulfilled, Fulfilled, Fulfilled]"
      "console ?f = [(''e'', UserError (VStr ''x''))]" "emissions ?f = 3"
    by (simp_all add: solo_env_def solo_later_def eval_simps numeral_2_eq_2 eval_nat_numeral)
  from once_alone_invoked_once[OF env pb 1 2 3 pl 4]
  have "by_wrapper (next_wrapper ?c) (invoked ?f) = [(ByWrapper (next_wrapper ?c), Fn 0, [VNum 7])]"
    by (elim conjE)
  then have 6: "by_wrapper 0 (invoked ?f) = [(ByWrapper 0, Fn 0, [VNum 7])]"
    by (simp only: 0)
  show ?thesis
    by (intro exI conjI) (rule 1 2 3 4 5 6)+
qed

end
